theory Spec2Isabelle
  imports Main
begin

section \<open>Data model of \<^verbatim>\<open>threadpoolman.cpp\<close>\<close>

text \<open>
  Pointers and handles are numbers: a \<^verbatim>\<open>void*\<close> is an integer with \<open>0\<close> for
  \<^verbatim>\<open>nullptr\<close>, a \<^verbatim>\<open>pthread_t\<close>, the address of a \<^verbatim>\<open>ThreadPoolMan\<close> object and the
  address of a caller-owned \<^verbatim>\<open>Semaphore\<close> are naturals.
\<close>

type_synonym ptr = int
type_synonym pthread_t = nat
type_synonym addr = nat
type_synonym semid = nat

text \<open>
  \<^verbatim>\<open>thpoolman_param\<close> is declared in \<^verbatim>\<open>threadpoolman.h\<close>; the fields are the ones this
  file reads: \<^verbatim>\<open>param.pfunc(param.args)\<close> and \<^verbatim>\<open>param.psem\<close> (a nullable pointer).
\<close>

record thpoolman_param =
  psem :: "semid option"
  args :: ptr
  pfunc :: "ptr \<Rightarrow> ptr"


text \<open>
  The thread that holds a mutex: a worker created by the pool, or a thread that called
  \<^verbatim>\<open>Instruct\<close>.
\<close>

datatype owner = By_Worker pthread_t | By_Caller pthread_t

text \<open>
  The members of a \<^verbatim>\<open>ThreadPoolMan\<close> object. The semaphore \<^verbatim>\<open>thpoolman_sem\<close> is its
  count; the mutex \<^verbatim>\<open>thread_list_lock\<close> is the thread that holds it, if any.
\<close>

record ThreadPoolMan =
  is_exit :: bool
  thpoolman_sem :: nat
  is_lock_init :: bool
  thread_list_lock :: "owner option"
  thread_list :: "pthread_t list"
  instruction_list :: "thpoolman_param list"

text \<open>The logger: every \<^verbatim>\<open>S3FS_PRN_*\<close> call appends its level and format string.\<close>

datatype loglevel = CRIT | ERR | WARN | INFO | INFO3 | DBG

type_synonym logline = "loglevel \<times> string"

text \<open>The format strings of the messages this file logs.\<close>

definition msg_worker_invalid :: string where
  "msg_worker_invalid = ''The parameter for worker thread is invalid.''"

definition msg_worker_start :: string where
  "msg_worker_start = ''Start worker thread in ThreadPoolMan.''"

definition msg_task_error :: string where
  "msg_task_error = ''The instruction function returned with somthign error code(%ld).''"

definition msg_empty_queue :: string where
  "msg_empty_queue = ''Got a semaphore, but the instruction is empty.''"

definition msg_join_failed :: string where
  "msg_join_failed = ''failed pthread_join - result(%d)''"

definition msg_join_ok :: string where
  "msg_join_ok = ''succeed pthread_join - return code(%ld)''"

definition msg_nothing_to_stop :: string where
  "msg_nothing_to_stop = ''Any threads are running now, then nothing to do.''"

definition msg_create_failed :: string where
  "msg_create_failed = ''failed pthread_create with return code(%d)''"

definition msg_count_under_1 :: string where
  "msg_count_under_1 = ''Failed to creating threads, because thread count(%d) is under 1.''"

definition msg_stop_failed :: string where
  "msg_stop_failed = ''Failed to stop existed threads.''"

definition msg_ctor_count :: string where
  "msg_ctor_count = ''Failed to creating singleton for Thread Manager, because thread count(%d) is under 1.''"

definition msg_ctor_singleton :: string where
  "msg_ctor_singleton = ''Already singleton for Thread Manager is existed.''"

definition msg_ctor_lock :: string where
  "msg_ctor_lock = ''failed to init thread_list_lock: %d''"

definition msg_ctor_start :: string where
  "msg_ctor_start = ''Failed starting threads at initializing.''"

definition msg_dtor_lock :: string where
  "msg_dtor_lock = ''failed to destroy thread_list_lock: %d''"

definition msg_recreate :: string where
  "msg_recreate = ''Already singleton for Thread Manager is existed, then re-create it.''"

definition msg_not_initialized :: string where
  "msg_not_initialized = ''The singleton object is not initialized yet.''"

text \<open>
  A worker thread is the activation of \<^verbatim>\<open>ThreadPoolMan::Worker\<close>: its argument and the
  statement it executes next. The local \<^verbatim>\<open>param\<close> lives in the control points that
  follow the dequeue; at the end of the scope of \<^verbatim>\<open>auto_lock\<close> the thread knows whether it
  leaves by \<^verbatim>\<open>continue\<close> (nothing taken) or with a descriptor.
\<close>

datatype wpc =
    W_Entry                     \<comment> \<open>line 73: the null check of \<^verbatim>\<open>arg\<close>\<close>
  | W_While                     \<comment> \<open>line 79: \<^verbatim>\<open>while(!psingleton->IsExit())\<close>\<close>
  | W_Wait                      \<comment> \<open>line 81: \<^verbatim>\<open>thpoolman_sem.wait()\<close>\<close>
  | W_IsExit                    \<comment> \<open>line 83: \<^verbatim>\<open>if(psingleton->IsExit()) break\<close>\<close>
  | W_Lock                      \<comment> \<open>line 90: \<^verbatim>\<open>AutoLock auto_lock(&thread_list_lock)\<close>\<close>
  | W_Fetch                     \<comment> \<open>lines 92-98: \<^verbatim>\<open>empty()\<close>, \<^verbatim>\<open>front()\<close>, \<^verbatim>\<open>pop_front()\<close>\<close>
  | W_Unlock "thpoolman_param option"
                                \<comment> \<open>lines 94, 99: \<^verbatim>\<open>auto_lock\<close> goes out of scope\<close>
  | W_Call thpoolman_param      \<comment> \<open>lines 101-104: \<^verbatim>\<open>param.pfunc(param.args)\<close> and the warning\<close>
  | W_Signal thpoolman_param    \<comment> \<open>lines 105-107: \<^verbatim>\<open>if(param.psem) param.psem->post()\<close>\<close>
  | W_Return ptr                \<comment> \<open>the thread function has returned this value\<close>

record worker =
  arg :: "addr option"
  pc :: wpc

text \<open>
  A thread inside \<^verbatim>\<open>ThreadPoolMan::Instruct\<close>: the statement it executes next, in
  \<^verbatim>\<open>Instruct\<close> itself or in the \<^verbatim>\<open>SetInstruction\<close> it calls on the singleton.
\<close>

datatype ipc =
    I_Entry thpoolman_param       \<comment> \<open>line 58: \<^verbatim>\<open>if(!ThreadPoolMan::singleton)\<close>\<close>
  | I_Lock addr thpoolman_param   \<comment> \<open>line 238: \<^verbatim>\<open>AutoLock auto_lock(&thread_list_lock)\<close>\<close>
  | I_Push addr thpoolman_param   \<comment> \<open>line 239: \<^verbatim>\<open>instruction_list.push_back(param)\<close>\<close>
  | I_Unlock addr                 \<comment> \<open>line 240: \<^verbatim>\<open>auto_lock\<close> goes out of scope\<close>
  | I_Post addr                   \<comment> \<open>line 243: \<^verbatim>\<open>thpoolman_sem.post()\<close>\<close>
  | I_Return bool                 \<comment> \<open>\<^verbatim>\<open>Instruct\<close> has returned this value\<close>

text \<open>
  The process: the static \<^verbatim>\<open>ThreadPoolMan::singleton\<close>, the objects on the heap, the
  threads ever created (\<open>next_tid\<close> and \<open>next_addr\<close> are the handles the runtime hands
  out next), the threads inside \<^verbatim>\<open>Instruct\<close>, the callers' semaphores and the log.
\<close>

record sys =
  singleton :: "addr option"
  heap :: "addr \<Rightarrow> ThreadPoolMan option"
  next_addr :: addr
  threads :: "pthread_t \<Rightarrow> worker option"
  next_tid :: pthread_t
  callers :: "pthread_t \<Rightarrow> ipc option"
  sems :: "semid \<Rightarrow> nat"
  logs :: "logline list"

definition log_line :: "loglevel \<Rightarrow> string \<Rightarrow> sys \<Rightarrow> sys" where
  "log_line lv m s = s\<lparr>logs := logs s @ [(lv, m)]\<rparr>"

definition set_obj :: "addr \<Rightarrow> ThreadPoolMan \<Rightarrow> sys \<Rightarrow> sys" where
  "set_obj this p s = s\<lparr>heap := (heap s)(this \<mapsto> p)\<rparr>"

definition set_pc :: "pthread_t \<Rightarrow> wpc \<Rightarrow> sys \<Rightarrow> sys" where
  "set_pc t c s =
     (case threads s t of
        None \<Rightarrow> s
      | Some w \<Rightarrow> s\<lparr>threads := (threads s)(t \<mapsto> w\<lparr>pc := c\<rparr>)\<rparr>)"

definition set_ipc :: "pthread_t \<Rightarrow> ipc \<Rightarrow> sys \<Rightarrow> sys" where
  "set_ipc c i s = s\<lparr>callers := (callers s)(c \<mapsto> i)\<rparr>"

section \<open>Member functions without blocking, and the primitives\<close>

definition IsExit :: "ThreadPoolMan \<Rightarrow> bool" where
  "IsExit p = is_exit p"

definition SetExitFlag :: "bool \<Rightarrow> ThreadPoolMan \<Rightarrow> ThreadPoolMan" where
  "SetExitFlag exit_flag p = p\<lparr>is_exit := exit_flag\<rparr>"

text \<open>
  Modelled from the spec: the class \<^verbatim>\<open>Semaphore\<close> (\<^verbatim>\<open>psemaphore.h\<close> is not among the
  sources) is the counting wakeup primitive of the glossary: posting increments the
  count, waiting blocks on a zero count and decrements it otherwise, and \<^verbatim>\<open>try_wait\<close>
  takes one unit if there is one and says whether it did.
\<close>

definition sem_post :: "ThreadPoolMan \<Rightarrow> ThreadPoolMan" where
  "sem_post p = p\<lparr>thpoolman_sem := Suc (thpoolman_sem p)\<rparr>"

definition try_wait :: "ThreadPoolMan \<Rightarrow> bool \<times> ThreadPoolMan" where
  "try_wait p =
     (if 0 < thpoolman_sem p then (True, p\<lparr>thpoolman_sem := thpoolman_sem p - 1\<rparr>)
      else (False, p))"

text \<open>
  Modelled from the spec: the class \<^verbatim>\<open>AutoLock\<close> (\<^verbatim>\<open>autolock.h\<close> is not among the
  sources) acquires the mutex where it is declared, which is possible only while no
  thread holds it (\<open>None\<close>: the thread has to wait), and releases it at the end of its
  scope.
\<close>

definition AutoLock_lock :: "owner \<Rightarrow> ThreadPoolMan \<Rightarrow> ThreadPoolMan option" where
  "AutoLock_lock self p =
     (case thread_list_lock p of
        None \<Rightarrow> Some (p\<lparr>thread_list_lock := Some self\<rparr>)
      | Some holder \<Rightarrow> None)"

definition AutoLock_unlock :: "ThreadPoolMan \<Rightarrow> ThreadPoolMan" where
  "AutoLock_unlock p = p\<lparr>thread_list_lock := None\<rparr>"

text \<open>\<^verbatim>\<open>instruction_list.push_back(param)\<close>.\<close>

definition push_back :: "thpoolman_param \<Rightarrow> ThreadPoolMan \<Rightarrow> ThreadPoolMan" where
  "push_back param p = p\<lparr>instruction_list := instruction_list p @ [param]\<rparr>"

section \<open>The worker thread\<close>

definition EIO :: int where
  "EIO = 5"

text \<open>
  One atomic step of thread \<open>t\<close> running \<^verbatim>\<open>ThreadPoolMan::Worker\<close>. \<open>None\<close>: the thread
  cannot move (it does not exist, it has returned, it is blocked in \<^verbatim>\<open>wait\<close> on a zero
  count or on the mutex held by another thread, or its object is gone).
\<close>

definition Worker :: "pthread_t \<Rightarrow> sys \<Rightarrow> sys option" where
  "Worker t s =
     (case threads s t of
        None \<Rightarrow> None
      | Some w \<Rightarrow>
         (case pc w of
            W_Return r \<Rightarrow> None
          | W_Entry \<Rightarrow>
             (case arg w of
                None \<Rightarrow>
                  Some (set_pc t (W_Return (- EIO))
                    (log_line ERR msg_worker_invalid s))
              | Some psingleton \<Rightarrow>
                  Some (set_pc t W_While
                    (log_line INFO3 msg_worker_start s)))
          | W_Call param \<Rightarrow>
             (let retval = pfunc param (args param) in
              Some (set_pc t (W_Signal param)
                (if retval \<noteq> 0
                 then log_line WARN
                   msg_task_error s
                 else s)))
          | W_Signal param \<Rightarrow>
             Some (set_pc t W_While
               (case psem param of
                  None \<Rightarrow> s
                | Some m \<Rightarrow> s\<lparr>sems := (sems s)(m := Suc (sems s m))\<rparr>))
          | c \<Rightarrow>
             (case arg w of
                None \<Rightarrow> None
              | Some psingleton \<Rightarrow>
                 (case heap s psingleton of
                    None \<Rightarrow> None
                  | Some p \<Rightarrow>
                     (case c of
                        W_While \<Rightarrow>
                          Some (set_pc t (if IsExit p then W_Return 0 else W_Wait) s)
                      | W_Wait \<Rightarrow>
                          (if thpoolman_sem p = 0 then None
                           else Some (set_pc t W_IsExit
                             (set_obj psingleton (p\<lparr>thpoolman_sem := thpoolman_sem p - 1\<rparr>) s)))
                      | W_IsExit \<Rightarrow>
                          Some (set_pc t (if IsExit p then W_Return 0 else W_Lock) s)
                      | W_Lock \<Rightarrow>
                          (case AutoLock_lock (By_Worker t) p of
                             None \<Rightarrow> None
                           | Some p' \<Rightarrow> Some (set_pc t W_Fetch (set_obj psingleton p' s)))
                      | W_Fetch \<Rightarrow>
                          (case instruction_list p of
                             [] \<Rightarrow>
                               Some (set_pc t (W_Unlock None)
                                 (log_line DBG msg_empty_queue s))
                           | param # rest \<Rightarrow>
                               Some (set_pc t (W_Unlock (Some param))
                                 (set_obj psingleton (p\<lparr>instruction_list := rest\<rparr>) s)))
                      | W_Unlock taken \<Rightarrow>
                          Some (set_pc t (case taken of None \<Rightarrow> W_While
                                          | Some param \<Rightarrow> W_Call param)
                            (set_obj psingleton (AutoLock_unlock p) s))
                      | _ \<Rightarrow> None)))))"

text \<open>
  While the caller of a blocking call waits, the listed threads take one step each, in
  this order; a thread that cannot move stays where it is.
\<close>

fun run_threads :: "pthread_t list \<Rightarrow> sys \<Rightarrow> sys" where
  "run_threads [] s = s"
| "run_threads (t # ts) s =
     run_threads ts (case Worker t s of None \<Rightarrow> s | Some s' \<Rightarrow> s')"

section \<open>The environment of a call\<close>

text \<open>
  What the pthread library answers: the result codes of \<^verbatim>\<open>pthread_mutex_init\<close>,
  \<^verbatim>\<open>pthread_mutex_destroy\<close>, of the \<^verbatim>\<open>pthread_create\<close> at loop index \<open>cnt\<close> and of the
  \<^verbatim>\<open>pthread_join\<close> of a thread, and what the other threads do while that join waits.
\<close>

record env =
  mutex_init_result :: int
  mutex_destroy_result :: int
  create_result :: "int \<Rightarrow> int"
  join_result :: "pthread_t \<Rightarrow> int"
  join_sched :: "pthread_t \<Rightarrow> pthread_t list"

text \<open>
  A call either returns a value and the new state, or it does not return: the process
  called \<^verbatim>\<open>abort()\<close> (after the critical log line given), the caller waits forever in
  \<^verbatim>\<open>pthread_join\<close>, or \<^verbatim>\<open>this\<close> is not an object.
\<close>

datatype fault = Aborted logline | Blocked | Segv

definition ESRCH :: int where
  "ESRCH = 3"

text \<open>
  \<^verbatim>\<open>pthread_join\<close>: the other threads run as the environment schedules them; the call
  then fails with \<^verbatim>\<open>ESRCH\<close> for a thread that was never created, fails with the
  environment's code when that is not zero, returns \<open>0\<close> when the thread has returned, and
  is still waiting otherwise.
\<close>

definition pthread_join :: "env \<Rightarrow> pthread_t \<Rightarrow> sys \<Rightarrow> fault + (int \<times> sys)" where
  "pthread_join e t s =
     (let s' = run_threads (join_sched e t) s in
      case threads s' t of
        None \<Rightarrow> Inr (ESRCH, s')
      | Some w \<Rightarrow>
         (if join_result e t \<noteq> 0 then Inr (join_result e t, s')
          else (case pc w of W_Return r \<Rightarrow> Inr (0, s') | _ \<Rightarrow> Inl Blocked)))"

text \<open>
  \<^verbatim>\<open>pthread_create(&thread, nullptr, ThreadPoolMan::Worker, this)\<close>: on success a new
  thread stands at the entry of \<^verbatim>\<open>Worker\<close> with \<^verbatim>\<open>arg = this\<close>.
\<close>

definition pthread_create :: "env \<Rightarrow> int \<Rightarrow> addr \<Rightarrow> sys \<Rightarrow> int \<times> pthread_t \<times> sys" where
  "pthread_create e cnt this s =
     (if create_result e cnt \<noteq> 0 then (create_result e cnt, 0, s)
      else (0, next_tid s,
            s\<lparr>threads := (threads s)(next_tid s \<mapsto> \<lparr>arg = Some this, pc = W_Entry\<rparr>),
              next_tid := Suc (next_tid s)\<rparr>))"

definition upd_obj :: "addr \<Rightarrow> (ThreadPoolMan \<Rightarrow> ThreadPoolMan) \<Rightarrow> sys \<Rightarrow> sys" where
  "upd_obj this f s =
     (case heap s this of None \<Rightarrow> s | Some p \<Rightarrow> set_obj this (f p) s)"

section \<open>Stopping and starting the threads\<close>

text \<open>Lines 180-182: \<^verbatim>\<open>for(waitcnt = thread_list.size(); 0 < waitcnt; --waitcnt) post()\<close>.\<close>

fun post_loop :: "nat \<Rightarrow> ThreadPoolMan \<Rightarrow> ThreadPoolMan" where
  "post_loop 0 p = p"
| "post_loop (Suc waitcnt) p = post_loop waitcnt (sem_post p)"

text \<open>Lines 185-193: the joins, in the order of \<^verbatim>\<open>thread_list\<close>.\<close>

fun join_loop :: "env \<Rightarrow> pthread_t list \<Rightarrow> sys \<Rightarrow> fault + sys" where
  "join_loop e [] s = Inr s"
| "join_loop e (t # ts) s =
     (case pthread_join e t s of
        Inl f \<Rightarrow> Inl f
      | Inr (result, s') \<Rightarrow>
          join_loop e ts
            (if result \<noteq> 0 then log_line ERR msg_join_failed s'
             else log_line DBG msg_join_ok s'))"

text \<open>Lines 197-198: \<^verbatim>\<open>while(thpoolman_sem.try_wait()){}\<close>.\<close>

function drain_loop :: "ThreadPoolMan \<Rightarrow> ThreadPoolMan" where
  "drain_loop p = (case try_wait p of (True, p') \<Rightarrow> drain_loop p' | (False, p') \<Rightarrow> p')"
  by pat_completeness auto
termination
  by (relation "measure thpoolman_sem") (auto simp: try_wait_def split: if_splits)

declare drain_loop.simps [simp del]

definition StopThreads :: "env \<Rightarrow> addr \<Rightarrow> sys \<Rightarrow> fault + (bool \<times> sys)" where
  "StopThreads e this s =
     (case heap s this of
        None \<Rightarrow> Inl Segv
      | Some p \<Rightarrow>
         (if thread_list p = [] then
            Inr (True, log_line INFO msg_nothing_to_stop s)
          else
            (case join_loop e (thread_list p)
                    (set_obj this (post_loop (length (thread_list p)) (SetExitFlag True p)) s) of
               Inl f \<Rightarrow> Inl f
             | Inr s' \<Rightarrow>
                 Inr (True, upd_obj this (\<lambda>p'. drain_loop (p'\<lparr>thread_list := []\<rparr>)) s'))))"

text \<open>Lines 220-230: the loop that creates the threads, from index \<open>cnt\<close> on.\<close>

function create_loop :: "env \<Rightarrow> addr \<Rightarrow> int \<Rightarrow> int \<Rightarrow> sys \<Rightarrow> fault + (bool \<times> sys)" where
  "create_loop e this count cnt s =
     (if cnt < count then
        (case pthread_create e cnt this s of
           (result, thread, s') \<Rightarrow>
             (if result \<noteq> 0 then
                (case StopThreads e this
                        (log_line ERR msg_create_failed s') of
                   Inl f \<Rightarrow> Inl f
                 | Inr (stopped, s'') \<Rightarrow> Inr (False, s''))
              else
                create_loop e this count (cnt + 1)
                  (upd_obj this (\<lambda>p. p\<lparr>thread_list := thread_list p @ [thread]\<rparr>) s')))
      else Inr (True, s))"
  by pat_completeness auto
termination
  by (relation "measure (\<lambda>(e, this, count, cnt, s). nat (count - cnt))") auto

declare create_loop.simps [simp del]

definition StartThreads :: "env \<Rightarrow> addr \<Rightarrow> int \<Rightarrow> sys \<Rightarrow> fault + (bool \<times> sys)" where
  "StartThreads e this count s =
     (if count < 1 then
        Inr (False, log_line ERR
          msg_count_under_1 s)
      else
        (case StopThreads e this s of
           Inl f \<Rightarrow> Inl f
         | Inr (stopped, s') \<Rightarrow>
             (if \<not> stopped then
                Inr (False, log_line ERR msg_stop_failed s')
              else
                create_loop e this count 0 (upd_obj this (SetExitFlag False) s'))))"

section \<open>Construction, destruction and the class methods\<close>

text \<open>
  \<^verbatim>\<open>new ThreadPoolMan(count)\<close>: the object is allocated with the members the initialiser
  list gives (and empty lists), then the body of the constructor runs.
\<close>

definition new_ThreadPoolMan :: "env \<Rightarrow> int \<Rightarrow> sys \<Rightarrow> fault + (addr \<times> sys)" where
  "new_ThreadPoolMan e count s =
     (let this = next_addr s;
          s0 = s\<lparr>heap := (heap s)(this \<mapsto> \<lparr>is_exit = False, thpoolman_sem = 0,
                    is_lock_init = False, thread_list_lock = None,
                    thread_list = [], instruction_list = []\<rparr>),
                 next_addr := Suc this\<rparr>
      in
      if count < 1 then
        Inl (Aborted (CRIT, msg_ctor_count))
      else if singleton s0 \<noteq> None then
        Inl (Aborted (CRIT, msg_ctor_singleton))
      else if mutex_init_result e \<noteq> 0 then
        Inl (Aborted (CRIT, msg_ctor_lock))
      else
        (case StartThreads e this count (upd_obj this (\<lambda>p. p\<lparr>is_lock_init := True\<rparr>) s0) of
           Inl f \<Rightarrow> Inl f
         | Inr (started, s1) \<Rightarrow>
             (if \<not> started then Inl (Aborted (ERR, msg_ctor_start))
              else Inr (this, s1))))"

text \<open>\<^verbatim>\<open>delete p\<close>: the destructor, then the memory is released.\<close>

definition delete_ThreadPoolMan :: "env \<Rightarrow> addr \<Rightarrow> sys \<Rightarrow> fault + sys" where
  "delete_ThreadPoolMan e this s =
     (case StopThreads e this s of
        Inl f \<Rightarrow> Inl f
      | Inr (stopped, s1) \<Rightarrow>
         (case heap s1 this of
            None \<Rightarrow> Inl Segv
          | Some p \<Rightarrow>
             (if is_lock_init p \<and> mutex_destroy_result e \<noteq> 0 then
                Inl (Aborted (CRIT, msg_dtor_lock))
              else Inr (s1\<lparr>heap := (heap s1)(this := None)\<rparr>))))"

definition Destroy :: "env \<Rightarrow> sys \<Rightarrow> fault + sys" where
  "Destroy e s =
     (case singleton s of
        None \<Rightarrow> Inr s
      | Some a \<Rightarrow>
         (case delete_ThreadPoolMan e a s of
            Inl f \<Rightarrow> Inl f
          | Inr s' \<Rightarrow> Inr (s'\<lparr>singleton := None\<rparr>)))"

definition Initialize :: "env \<Rightarrow> int \<Rightarrow> sys \<Rightarrow> fault + (bool \<times> sys)" where
  "Initialize e count s =
     (case (if singleton s \<noteq> None then
              Destroy e (log_line WARN
                msg_recreate s)
            else Inr s) of
        Inl f \<Rightarrow> Inl f
      | Inr s1 \<Rightarrow>
         (case new_ThreadPoolMan e count s1 of
            Inl f \<Rightarrow> Inl f
          | Inr (a, s2) \<Rightarrow> Inr (True, s2\<lparr>singleton := Some a\<rparr>)))"


section \<open>Submitting an instruction\<close>

text \<open>
  One atomic step of thread \<open>c\<close> inside \<^verbatim>\<open>SetInstruction\<close> on the object at \<open>this\<close>
  (lines 234-244): the control point that follows and the new state. The call returns
  to \<^verbatim>\<open>Instruct\<close>, which returns true (line 63). \<open>None\<close>: the thread cannot move (it
  waits for the mutex, or \<^verbatim>\<open>this\<close> is not an object).
\<close>

definition SetInstruction :: "pthread_t \<Rightarrow> ipc \<Rightarrow> sys \<Rightarrow> (ipc \<times> sys) option" where
  "SetInstruction c i s =
     (case i of
        I_Lock this param \<Rightarrow>
          (case heap s this of
             None \<Rightarrow> None
           | Some p \<Rightarrow>
              (case AutoLock_lock (By_Caller c) p of
                 None \<Rightarrow> None
               | Some p' \<Rightarrow> Some (I_Push this param, set_obj this p' s)))
      | I_Push this param \<Rightarrow>
          (case heap s this of
             None \<Rightarrow> None
           | Some p \<Rightarrow> Some (I_Unlock this, set_obj this (push_back param p) s))
      | I_Unlock this \<Rightarrow>
          (case heap s this of
             None \<Rightarrow> None
           | Some p \<Rightarrow> Some (I_Post this, set_obj this (AutoLock_unlock p) s))
      | I_Post this \<Rightarrow>
          (case heap s this of
             None \<Rightarrow> None
           | Some p \<Rightarrow> Some (I_Return True, set_obj this (sem_post p) s))
      | _ \<Rightarrow> None)"

text \<open>
  One atomic step of thread \<open>c\<close> inside \<^verbatim>\<open>ThreadPoolMan::Instruct\<close> (lines 56-64).
  \<open>None\<close>: the thread is not inside the function, or cannot move. The test of the
  singleton (line 58) and the read of it for the call (line 62) are one step: the
  singleton is written by \<^verbatim>\<open>Initialize\<close> and \<^verbatim>\<open>Destroy\<close> only, which are whole calls
  here and take no part in the interleaving.
\<close>

definition Instruct :: "pthread_t \<Rightarrow> sys \<Rightarrow> sys option" where
  "Instruct c s =
     (case callers s c of
        None \<Rightarrow> None
      | Some i \<Rightarrow>
         (case i of
            I_Return r \<Rightarrow> None
          | I_Entry param \<Rightarrow>
             (case singleton s of
                None \<Rightarrow>
                  Some (set_ipc c (I_Return False) (log_line WARN msg_not_initialized s))
              | Some a \<Rightarrow> Some (set_ipc c (I_Lock a param) s))
          | _ \<Rightarrow>
             (case SetInstruction c i s of
                None \<Rightarrow> None
              | Some (i', s') \<Rightarrow> Some (set_ipc c i' s'))))"

section \<open>Interleaved executions of workers and submitters\<close>

text \<open>
  The atomic moves of the threads that run while a pool is up: a step of a worker, a
  step of a thread inside \<^verbatim>\<open>Instruct\<close>, and a thread that is not inside \<^verbatim>\<open>Instruct\<close>
  calling it with a descriptor.
\<close>

datatype action =
    Act_Worker pthread_t
  | Act_Instruct pthread_t
  | Act_Call pthread_t thpoolman_param

definition step :: "action \<Rightarrow> sys \<Rightarrow> sys option" where
  "step a s =
     (case a of
        Act_Worker t \<Rightarrow> Worker t s
      | Act_Instruct c \<Rightarrow> Instruct c s
      | Act_Call c param \<Rightarrow>
         (case callers s c of
            None \<Rightarrow> Some (set_ipc c (I_Entry param) s)
          | Some (I_Return r) \<Rightarrow> Some (set_ipc c (I_Entry param) s)
          | Some _ \<Rightarrow> None))"

fun run :: "action list \<Rightarrow> sys \<Rightarrow> sys option" where
  "run [] s = Some s"
| "run (a # as) s = (case step a s of None \<Rightarrow> None | Some s' \<Rightarrow> run as s')"

definition actor :: "action \<Rightarrow> owner" where
  "actor a =
     (case a of
        Act_Worker t \<Rightarrow> By_Worker t
      | Act_Instruct c \<Rightarrow> By_Caller c
      | Act_Call c param \<Rightarrow> By_Caller c)"

text \<open>
  What a move shows of the queue of the object at \<open>this\<close>: the descriptor a thread has
  pushed in \<^verbatim>\<open>SetInstruction\<close> (it stood at the \<^verbatim>\<open>push_back\<close> and stands behind it), and
  the descriptor a worker holds in \<^verbatim>\<open>param\<close> (it stood at the test of the queue and
  leaves the block with a descriptor).
\<close>

definition gave :: "addr \<Rightarrow> pthread_t \<Rightarrow> sys \<Rightarrow> sys \<Rightarrow> thpoolman_param list" where
  "gave this c s s' =
     (case (callers s c, callers s' c) of
        (Some (I_Push a param), Some (I_Unlock b)) \<Rightarrow> (if a = this then [param] else [])
      | _ \<Rightarrow> [])"

definition took :: "addr \<Rightarrow> pthread_t \<Rightarrow> sys \<Rightarrow> sys \<Rightarrow> thpoolman_param list" where
  "took this t s s' =
     (case (threads s t, threads s' t) of
        (Some w, Some w') \<Rightarrow>
          (if arg w = Some this then
             (case (pc w, pc w') of (W_Fetch, W_Unlock (Some param)) \<Rightarrow> [param] | _ \<Rightarrow> [])
           else [])
      | _ \<Rightarrow> [])"

text \<open>Over a run: the descriptors pushed and the descriptors taken, in the order of the moves.\<close>

fun enqueued :: "addr \<Rightarrow> action list \<Rightarrow> sys \<Rightarrow> thpoolman_param list" where
  "enqueued this [] s = []"
| "enqueued this (a # as) s =
     (case step a s of
        None \<Rightarrow> []
      | Some s' \<Rightarrow>
          (case a of Act_Instruct c \<Rightarrow> gave this c s s' | _ \<Rightarrow> []) @ enqueued this as s')"

fun dequeued :: "addr \<Rightarrow> action list \<Rightarrow> sys \<Rightarrow> thpoolman_param list" where
  "dequeued this [] s = []"
| "dequeued this (a # as) s =
     (case step a s of
        None \<Rightarrow> []
      | Some s' \<Rightarrow>
          (case a of Act_Worker t \<Rightarrow> took this t s s' | _ \<Rightarrow> []) @ dequeued this as s')"

text \<open>
  Every move of the run that changes the queue of the object at \<open>this\<close> is made by the
  thread that holds its mutex.
\<close>

fun locked_access :: "addr \<Rightarrow> action list \<Rightarrow> sys \<Rightarrow> bool" where
  "locked_access this [] s = True"
| "locked_access this (a # as) s =
     (case step a s of
        None \<Rightarrow> True
      | Some s' \<Rightarrow>
          (map_option instruction_list (heap s' this) = map_option instruction_list (heap s this)
           \<or> map_option thread_list_lock (heap s this) = Some (Some (actor a)))
          \<and> locked_access this as s')"

text \<open>
  The discipline of the mutex of every object: the thread that holds it is exactly the
  thread between the acquisition and the release, a worker of the object inside the
  block of lines 89-99 or a caller inside the block of lines 237-240.
\<close>

definition worker_in_block :: "addr \<Rightarrow> worker \<Rightarrow> bool" where
  "worker_in_block this w \<longleftrightarrow>
     arg w = Some this \<and> (case pc w of W_Fetch \<Rightarrow> True | W_Unlock taken \<Rightarrow> True | _ \<Rightarrow> False)"

definition caller_in_block :: "addr \<Rightarrow> ipc \<Rightarrow> bool" where
  "caller_in_block this i \<longleftrightarrow>
     (case i of I_Push a param \<Rightarrow> a = this | I_Unlock a \<Rightarrow> a = this | _ \<Rightarrow> False)"

definition lock_inv :: "sys \<Rightarrow> bool" where
  "lock_inv s \<longleftrightarrow>
     (\<forall>this p. heap s this = Some p \<longrightarrow>
        (\<forall>t. (\<exists>w. threads s t = Some w \<and> worker_in_block this w)
               \<longleftrightarrow> thread_list_lock p = Some (By_Worker t))
        \<and> (\<forall>c. (\<exists>i. callers s c = Some i \<and> caller_in_block this i)
               \<longleftrightarrow> thread_list_lock p = Some (By_Caller c)))"

text \<open>The control point of a thread, if the thread exists.\<close>

definition pc_of :: "sys \<Rightarrow> pthread_t \<Rightarrow> wpc option" where
  "pc_of s t = map_option pc (threads s t)"

section \<open>Example states\<close>

definition task_a :: thpoolman_param where
  "task_a = \<lparr>psem = Some 0, args = 1, pfunc = (\<lambda>x. 0)\<rparr>"

definition task_b :: thpoolman_param where
  "task_b = \<lparr>psem = None, args = 2, pfunc = (\<lambda>x. x)\<rparr>"

definition task_c :: thpoolman_param where
  "task_c = \<lparr>psem = Some 0, args = 7, pfunc = (\<lambda>x. x)\<rparr>"

definition ex_pool :: "bool \<Rightarrow> nat \<Rightarrow> thpoolman_param list \<Rightarrow> ThreadPoolMan" where
  "ex_pool ex n q =
     \<lparr>is_exit = ex, thpoolman_sem = n, is_lock_init = True, thread_list_lock = None,
      thread_list = [0], instruction_list = q\<rparr>"

definition ex_sys :: "ThreadPoolMan \<Rightarrow> wpc \<Rightarrow> sys" where
  "ex_sys p c =
     \<lparr>singleton = Some 0, heap = [0 \<mapsto> p], next_addr = 1,
      threads = [0 \<mapsto> \<lparr>arg = Some 0, pc = c\<rparr>], next_tid = 1,
      callers = Map.empty, sems = (\<lambda>m. 0), logs = []\<rparr>"

text \<open>
  Thread 5 submits \<open>task_a\<close> and returns; thread 6 submits \<open>task_b\<close> and is still inside the
  block when the worker wakes; the worker takes the mutex once thread 6 has released it,
  and takes the front of the queue.
\<close>

definition ex_run :: "action list" where
  "ex_run = [Act_Call 5 task_a, Act_Instruct 5, Act_Instruct 5, Act_Instruct 5, Act_Instruct 5,
             Act_Instruct 5, Act_Call 6 task_b, Act_Instruct 6, Act_Instruct 6, Act_Instruct 6,
             Act_Worker 0, Act_Worker 0, Act_Instruct 6, Act_Worker 0, Act_Worker 0]"

definition ex_env :: env where
  "ex_env = \<lparr>mutex_init_result = 0, mutex_destroy_result = 0, create_result = (\<lambda>cnt. 0),
             join_result = (\<lambda>t. 0), join_sched = (\<lambda>t. [t, t, t, t, t, t])\<rparr>"

definition ex_env_create_fails :: env where
  "ex_env_create_fails = ex_env\<lparr>create_result := (\<lambda>cnt. if cnt = 1 then 11 else 0)\<rparr>"

definition ex_env_lock_fails :: env where
  "ex_env_lock_fails = ex_env\<lparr>mutex_init_result := 12\<rparr>"

definition ex_start :: sys where
  "ex_start = \<lparr>singleton = None, heap = Map.empty, next_addr = 0, threads = Map.empty,
               next_tid = 0, callers = Map.empty, sems = (\<lambda>m. 0), logs = []\<rparr>"

definition ex_idle :: sys where
  "ex_idle =
     \<lparr>singleton = Some 0,
      heap = [0 \<mapsto> \<lparr>is_exit = False, thpoolman_sem = 3, is_lock_init = True,
                     thread_list_lock = None, thread_list = [], instruction_list = []\<rparr>],
      next_addr = 1, threads = Map.empty, next_tid = 0, callers = Map.empty,
      sems = (\<lambda>m. 0), logs = []\<rparr>"

section \<open>Notions used in the statements\<close>

text \<open>
  The threads that stand inside a block guarded by the mutex of the object at \<open>this\<close>.
\<close>

definition holders :: "sys \<Rightarrow> addr \<Rightarrow> owner set" where
  "holders s this =
     {By_Worker t | t w. threads s t = Some w \<and> worker_in_block this w}
     \<union> {By_Caller c | c i. callers s c = Some i \<and> caller_in_block this i}"

text \<open>
  The thread has returned from \<^verbatim>\<open>Worker\<close>.
\<close>

definition returned :: "sys \<Rightarrow> pthread_t \<Rightarrow> bool" where
  "returned s t = (case pc_of s t of Some (W_Return r) \<Rightarrow> True | _ \<Rightarrow> False)"

text \<open>
  The members of an object that no step of a worker writes.
\<close>

definition same_members :: "ThreadPoolMan \<Rightarrow> ThreadPoolMan \<Rightarrow> bool" where
  "same_members p p' \<longleftrightarrow>
     is_exit p' = is_exit p \<and> is_lock_init p' = is_lock_init p \<and> thread_list p' = thread_list p"

text \<open>
  What steps of workers leave of a state: the singleton, the handles, the objects (up to
  the queue, the wakeup count and the mutex), the arguments of the threads, and the
  threads that have returned.
\<close>

definition workers_only :: "sys \<Rightarrow> sys \<Rightarrow> bool" where
  "workers_only s s' \<longleftrightarrow>
     singleton s' = singleton s \<and> next_addr s' = next_addr s \<and> next_tid s' = next_tid s
     \<and> (\<forall>a. rel_option same_members (heap s a) (heap s' a))
     \<and> (\<forall>t. rel_option (\<lambda>w w'. arg w' = arg w) (threads s t) (threads s' t))
     \<and> (\<forall>t. returned s t \<longrightarrow> returned s' t)"

text \<open>
  A bound on the steps a worker still takes once the exit flag is set and the wakeup
  semaphore is positive, by control point.
\<close>

fun steps_left :: "wpc \<Rightarrow> nat" where
  "steps_left (W_Return r) = 0"
| "steps_left W_While = 1"
| "steps_left W_IsExit = 1"
| "steps_left W_Wait = 2"
| "steps_left W_Entry = 2"
| "steps_left (W_Signal param) = 2"
| "steps_left (W_Call param) = 3"
| "steps_left (W_Unlock taken) = 4"
| "steps_left W_Fetch = 5"
| "steps_left W_Lock = 6"

text \<open>
  The control points inside the block of lines 89-99.
\<close>

fun in_block :: "wpc \<Rightarrow> bool" where
  "in_block W_Fetch = True"
| "in_block (W_Unlock taken) = True"
| "in_block c = False"

text \<open>
  A fair schedule of the joins: while \<^verbatim>\<open>pthread_join\<close> waits for a thread, that thread is
  given six steps, enough to reach its return from any control point.
\<close>

definition fair :: "env \<Rightarrow> bool" where
  "fair e \<longleftrightarrow> (\<forall>t. join_sched e t = [t, t, t, t, t, t])"

text \<open>
  The handles in \<open>ts\<close> are distinct threads that run \<^verbatim>\<open>Worker\<close> on the object at \<open>this\<close>.
\<close>

definition tracked :: "sys \<Rightarrow> addr \<Rightarrow> pthread_t list \<Rightarrow> bool" where
  "tracked s this ts \<longleftrightarrow>
     distinct ts \<and> (\<forall>t\<in>set ts. \<exists>w. threads s t = Some w \<and> arg w = Some this)"

text \<open>
  What \<^verbatim>\<open>StopThreads\<close> leaves of a state: the singleton, the handles, which objects are
  live and whether their mutex is initialised, the arguments of the threads, and the
  threads that have returned.
\<close>

definition kept :: "sys \<Rightarrow> sys \<Rightarrow> bool" where
  "kept s s' \<longleftrightarrow>
     singleton s' = singleton s \<and> next_addr s' = next_addr s \<and> next_tid s' = next_tid s
     \<and> (\<forall>a. heap s' a = None \<longleftrightarrow> heap s a = None)
     \<and> (\<forall>a p p'. heap s a = Some p \<and> heap s' a = Some p' \<longrightarrow> is_lock_init p' = is_lock_init p)
     \<and> (\<forall>t. rel_option (\<lambda>w w'. arg w' = arg w) (threads s t) (threads s' t))
     \<and> (\<forall>t. returned s t \<longrightarrow> returned s' t)"

text \<open>
  The state after \<open>n\<close> successful rounds of the creation loop on the object at \<open>this\<close>:
  \<open>n\<close> new threads at the entry of \<^verbatim>\<open>Worker\<close>, their handles appended to \<^verbatim>\<open>thread_list\<close>.
\<close>

definition spawned :: "addr \<Rightarrow> nat \<Rightarrow> sys \<Rightarrow> sys" where
  "spawned this n s =
     (upd_obj this (\<lambda>p. p\<lparr>thread_list := thread_list p @ [next_tid s ..< next_tid s + n]\<rparr>) s)
       \<lparr>threads := (\<lambda>t. if next_tid s \<le> t \<and> t < next_tid s + n
                         then Some \<lparr>arg = Some this, pc = W_Entry\<rparr> else threads s t),
        next_tid := next_tid s + n\<rparr>"

text \<open>
  The object as the initialiser list of the constructor leaves it (line 116).
\<close>

definition fresh_obj :: ThreadPoolMan where
  "fresh_obj = \<lparr>is_exit = False, thpoolman_sem = 0, is_lock_init = False,
                thread_list_lock = None, thread_list = [], instruction_list = []\<rparr>"

text \<open>
  The state after a constructor that has succeeded: the new object, its mutex
  initialised, with \<open>count\<close> threads started.
\<close>

definition constructed :: "int \<Rightarrow> sys \<Rightarrow> sys" where
  "constructed count s =
     spawned (next_addr s) (nat count)
       (log_line INFO msg_nothing_to_stop
          (s\<lparr>heap := (heap s)(next_addr s \<mapsto> fresh_obj\<lparr>is_lock_init := True\<rparr>),
             next_addr := Suc (next_addr s)\<rparr>))"

text \<open>
  The words of the specification for \<^verbatim>\<open>Initialize\<close> called again: \<^verbatim>\<open>Destroy()\<close> followed by
  \<^verbatim>\<open>Initialize()\<close> with the new count. It is compared with \<^verbatim>\<open>Initialize\<close>, which is
  translated from lines 38-46.
\<close>

definition Destroy_then_Initialize :: "env \<Rightarrow> int \<Rightarrow> sys \<Rightarrow> fault + (bool \<times> sys)" where
  "Destroy_then_Initialize e count s =
     (case Destroy e s of Inl f \<Rightarrow> Inl f | Inr s1 \<Rightarrow> Initialize e count s1)"

text \<open>
  Every \<^verbatim>\<open>pthread_create\<close> of a start with \<open>count\<close> threads succeeds.
\<close>

definition all_created :: "env \<Rightarrow> int \<Rightarrow> bool" where
  "all_created e count \<longleftrightarrow> (\<forall>i. 0 \<le> i \<and> i < count \<longrightarrow> create_result e i = 0)"

text \<open>
  States in which the only live object is the singleton, and every handle in use is below
  the next fresh one.
\<close>

definition well_formed :: "sys \<Rightarrow> bool" where
  "well_formed s \<longleftrightarrow>
     (\<forall>a. heap s a \<noteq> None \<longleftrightarrow> singleton s = Some a)
     \<and> (\<forall>a. singleton s = Some a \<longrightarrow> a < next_addr s)
     \<and> (\<forall>t w a. threads s t = Some w \<and> arg w = Some a \<longrightarrow> a < next_addr s)
     \<and> (\<forall>t. threads s t \<noteq> None \<longrightarrow> t < next_tid s)"

section \<open>Properties\<close>

subsection \<open>Projections of the state updates\<close>

lemma log_line_proj [simp]:
  "singleton (log_line lv m s) = singleton s"
  "heap (log_line lv m s) = heap s"
  "next_addr (log_line lv m s) = next_addr s"
  "threads (log_line lv m s) = threads s"
  "next_tid (log_line lv m s) = next_tid s"
  "callers (log_line lv m s) = callers s"
  "sems (log_line lv m s) = sems s"
  "logs (log_line lv m s) = logs s @ [(lv, m)]"
  by (simp_all add: log_line_def)

lemma set_obj_proj [simp]:
  "singleton (set_obj a p s) = singleton s"
  "heap (set_obj a p s) = (heap s)(a \<mapsto> p)"
  "next_addr (set_obj a p s) = next_addr s"
  "threads (set_obj a p s) = threads s"
  "next_tid (set_obj a p s) = next_tid s"
  "callers (set_obj a p s) = callers s"
  "sems (set_obj a p s) = sems s"
  "logs (set_obj a p s) = logs s"
  by (simp_all add: set_obj_def)

lemma set_pc_proj [simp]:
  "singleton (set_pc t c s) = singleton s"
  "heap (set_pc t c s) = heap s"
  "next_addr (set_pc t c s) = next_addr s"
  "next_tid (set_pc t c s) = next_tid s"
  "callers (set_pc t c s) = callers s"
  "sems (set_pc t c s) = sems s"
  "logs (set_pc t c s) = logs s"
  by (simp_all add: set_pc_def split: option.splits)

lemma threads_set_pc [simp]:
  "threads (set_pc t c s) t' =
     (if t' = t then map_option (\<lambda>w. w\<lparr>pc := c\<rparr>) (threads s t) else threads s t')"
  by (simp add: set_pc_def split: option.splits)

lemma set_ipc_proj [simp]:
  "singleton (set_ipc c i s) = singleton s"
  "heap (set_ipc c i s) = heap s"
  "next_addr (set_ipc c i s) = next_addr s"
  "threads (set_ipc c i s) = threads s"
  "next_tid (set_ipc c i s) = next_tid s"
  "callers (set_ipc c i s) = (callers s)(c \<mapsto> i)"
  "sems (set_ipc c i s) = sems s"
  "logs (set_ipc c i s) = logs s"
  by (simp_all add: set_ipc_def)

lemma upd_obj_proj [simp]:
  "singleton (upd_obj a f s) = singleton s"
  "next_addr (upd_obj a f s) = next_addr s"
  "threads (upd_obj a f s) = threads s"
  "next_tid (upd_obj a f s) = next_tid s"
  "callers (upd_obj a f s) = callers s"
  "sems (upd_obj a f s) = sems s"
  "logs (upd_obj a f s) = logs s"
  by (simp_all add: upd_obj_def split: option.splits)

lemma heap_upd_obj [simp]:
  "heap (upd_obj a f s) b = (if b = a then map_option f (heap s a) else heap s b)"
  by (simp add: upd_obj_def split: option.splits)

subsection \<open>The steps of a worker, by control point\<close>

lemma Worker_Return: "threads s t = Some w \<Longrightarrow> pc w = W_Return r \<Longrightarrow> Worker t s = None"
  by (simp add: Worker_def)

lemma Worker_Entry:
  "threads s t = Some w \<Longrightarrow> pc w = W_Entry \<Longrightarrow>
   Worker t s = Some (case arg w of
       None \<Rightarrow> set_pc t (W_Return (- EIO)) (log_line ERR msg_worker_invalid s)
     | Some a \<Rightarrow> set_pc t W_While (log_line INFO3 msg_worker_start s))"
  by (simp add: Worker_def split: option.splits)

lemma Worker_Call:
  "threads s t = Some w \<Longrightarrow> pc w = W_Call param \<Longrightarrow>
   Worker t s = Some (set_pc t (W_Signal param)
     (if pfunc param (args param) \<noteq> 0 then log_line WARN msg_task_error s else s))"
  by (simp add: Worker_def Let_def)

lemma Worker_Signal:
  "threads s t = Some w \<Longrightarrow> pc w = W_Signal param \<Longrightarrow>
   Worker t s = Some (set_pc t W_While
     (case psem param of None \<Rightarrow> s | Some m \<Rightarrow> s\<lparr>sems := (sems s)(m := Suc (sems s m))\<rparr>))"
  by (simp add: Worker_def)

lemma Worker_While:
  "threads s t = Some w \<Longrightarrow> pc w = W_While \<Longrightarrow> arg w = Some a \<Longrightarrow> heap s a = Some p \<Longrightarrow>
   Worker t s = Some (set_pc t (if is_exit p then W_Return 0 else W_Wait) s)"
  by (simp add: Worker_def IsExit_def)

lemma Worker_Wait:
  "threads s t = Some w \<Longrightarrow> pc w = W_Wait \<Longrightarrow> arg w = Some a \<Longrightarrow> heap s a = Some p \<Longrightarrow>
   Worker t s = (if thpoolman_sem p = 0 then None
     else Some (set_pc t W_IsExit (set_obj a (p\<lparr>thpoolman_sem := thpoolman_sem p - 1\<rparr>) s)))"
  by (simp add: Worker_def)

lemma Worker_IsExit:
  "threads s t = Some w \<Longrightarrow> pc w = W_IsExit \<Longrightarrow> arg w = Some a \<Longrightarrow> heap s a = Some p \<Longrightarrow>
   Worker t s = Some (set_pc t (if is_exit p then W_Return 0 else W_Lock) s)"
  by (simp add: Worker_def IsExit_def)

lemma Worker_Lock:
  "threads s t = Some w \<Longrightarrow> pc w = W_Lock \<Longrightarrow> arg w = Some a \<Longrightarrow> heap s a = Some p \<Longrightarrow>
   Worker t s = (if thread_list_lock p \<noteq> None then None
     else Some (set_pc t W_Fetch (set_obj a (p\<lparr>thread_list_lock := Some (By_Worker t)\<rparr>) s)))"
  by (simp add: Worker_def AutoLock_lock_def split: option.splits)

lemma Worker_Fetch:
  "threads s t = Some w \<Longrightarrow> pc w = W_Fetch \<Longrightarrow> arg w = Some a \<Longrightarrow> heap s a = Some p \<Longrightarrow>
   Worker t s = Some (case instruction_list p of
       [] \<Rightarrow> set_pc t (W_Unlock None) (log_line DBG msg_empty_queue s)
     | param # rest \<Rightarrow>
         set_pc t (W_Unlock (Some param)) (set_obj a (p\<lparr>instruction_list := rest\<rparr>) s))"
  by (simp add: Worker_def split: list.splits)

lemma Worker_Unlock:
  "threads s t = Some w \<Longrightarrow> pc w = W_Unlock taken \<Longrightarrow> arg w = Some a \<Longrightarrow> heap s a = Some p \<Longrightarrow>
   Worker t s = Some (set_pc t (case taken of None \<Rightarrow> W_While | Some param \<Rightarrow> W_Call param)
     (set_obj a (p\<lparr>thread_list_lock := None\<rparr>) s))"
  by (simp add: Worker_def AutoLock_unlock_def)

lemma Worker_no_thread: "threads s t = None \<Longrightarrow> Worker t s = None"
  by (simp add: Worker_def)

lemma Worker_no_object:
  "threads s t = Some w \<Longrightarrow>
   (case pc w of W_While \<Rightarrow> True | W_Wait \<Rightarrow> True | W_IsExit \<Rightarrow> True | W_Lock \<Rightarrow> True
      | W_Fetch \<Rightarrow> True | W_Unlock taken \<Rightarrow> True | _ \<Rightarrow> False) \<Longrightarrow>
   (case arg w of None \<Rightarrow> True | Some a \<Rightarrow> heap s a = None) \<Longrightarrow> Worker t s = None"
  by (cases "pc w"; cases "arg w") (simp_all add: Worker_def)

text \<open>Every step of a worker is one of these.\<close>

lemma Worker_SomeE:
  assumes "Worker t s = Some s'"
  obtains
    (Entry_null) w where "threads s t = Some w" "pc w = W_Entry" "arg w = None"
      "s' = set_pc t (W_Return (- EIO)) (log_line ERR msg_worker_invalid s)"
  | (Entry) w a where "threads s t = Some w" "pc w = W_Entry" "arg w = Some a"
      "s' = set_pc t W_While (log_line INFO3 msg_worker_start s)"
  | (Call) w param where "threads s t = Some w" "pc w = W_Call param"
      "s' = set_pc t (W_Signal param)
         (if pfunc param (args param) \<noteq> 0 then log_line WARN msg_task_error s else s)"
  | (Signal_none) w param where "threads s t = Some w" "pc w = W_Signal param"
      "psem param = None" "s' = set_pc t W_While s"
  | (Signal) w param m where "threads s t = Some w" "pc w = W_Signal param"
      "psem param = Some m" "s' = set_pc t W_While (s\<lparr>sems := (sems s)(m := Suc (sems s m))\<rparr>)"
  | (While) w a p where "threads s t = Some w" "pc w = W_While" "arg w = Some a"
      "heap s a = Some p" "s' = set_pc t (if is_exit p then W_Return 0 else W_Wait) s"
  | (Wait) w a p where "threads s t = Some w" "pc w = W_Wait" "arg w = Some a"
      "heap s a = Some p" "thpoolman_sem p \<noteq> 0"
      "s' = set_pc t W_IsExit (set_obj a (p\<lparr>thpoolman_sem := thpoolman_sem p - 1\<rparr>) s)"
  | (IsExit) w a p where "threads s t = Some w" "pc w = W_IsExit" "arg w = Some a"
      "heap s a = Some p" "s' = set_pc t (if is_exit p then W_Return 0 else W_Lock) s"
  | (Lock) w a p where "threads s t = Some w" "pc w = W_Lock" "arg w = Some a"
      "heap s a = Some p" "thread_list_lock p = None"
      "s' = set_pc t W_Fetch (set_obj a (p\<lparr>thread_list_lock := Some (By_Worker t)\<rparr>) s)"
  | (Fetch_empty) w a p where "threads s t = Some w" "pc w = W_Fetch" "arg w = Some a"
      "heap s a = Some p" "instruction_list p = []"
      "s' = set_pc t (W_Unlock None) (log_line DBG msg_empty_queue s)"
  | (Fetch) w a p param rest where "threads s t = Some w" "pc w = W_Fetch" "arg w = Some a"
      "heap s a = Some p" "instruction_list p = param # rest"
      "s' = set_pc t (W_Unlock (Some param)) (set_obj a (p\<lparr>instruction_list := rest\<rparr>) s)"
  | (Unlock) w a p taken where "threads s t = Some w" "pc w = W_Unlock taken" "arg w = Some a"
      "heap s a = Some p"
      "s' = set_pc t (case taken of None \<Rightarrow> W_While | Some param \<Rightarrow> W_Call param)
              (set_obj a (p\<lparr>thread_list_lock := None\<rparr>) s)"
proof (cases "threads s t")
  case None
  with assms show ?thesis by (simp add: Worker_no_thread)
next
  case (Some w)
  note w = this
  have no: "False"
    if "case pc w of W_While \<Rightarrow> True | W_Wait \<Rightarrow> True | W_IsExit \<Rightarrow> True | W_Lock \<Rightarrow> True
          | W_Fetch \<Rightarrow> True | W_Unlock taken \<Rightarrow> True | _ \<Rightarrow> False"
      "case arg w of None \<Rightarrow> True | Some a \<Rightarrow> heap s a = None"
    using Worker_no_object [OF w that] assms by simp
  show ?thesis
  proof (cases "pc w")
    case W_Entry
    with w assms Entry_null Entry show ?thesis
      by (cases "arg w") (simp_all add: Worker_Entry)
  next
    case (W_Call param)
    with w assms Call show ?thesis by (simp add: Worker_Call)
  next
    case (W_Signal param)
    with w assms Signal_none Signal show ?thesis
      by (cases "psem param") (simp_all add: Worker_Signal)
  next
    case (W_Return r)
    with w assms show ?thesis by (simp add: Worker_Return)
  next
    case W_While
    with no obtain a p where ap: "arg w = Some a" "heap s a = Some p"
      by (cases "arg w"; cases "heap s (the (arg w))") auto
    from Worker_While [OF w W_While ap] assms While [OF w W_While ap] show ?thesis by simp
  next
    case W_Wait
    with no obtain a p where ap: "arg w = Some a" "heap s a = Some p"
      by (cases "arg w"; cases "heap s (the (arg w))") auto
    from Worker_Wait [OF w W_Wait ap] assms Wait [OF w W_Wait ap] show ?thesis
      by (simp split: if_splits)
  next
    case W_IsExit
    with no obtain a p where ap: "arg w = Some a" "heap s a = Some p"
      by (cases "arg w"; cases "heap s (the (arg w))") auto
    from Worker_IsExit [OF w W_IsExit ap] assms IsExit [OF w W_IsExit ap] show ?thesis by simp
  next
    case W_Lock
    with no obtain a p where ap: "arg w = Some a" "heap s a = Some p"
      by (cases "arg w"; cases "heap s (the (arg w))") auto
    from Worker_Lock [OF w W_Lock ap] assms Lock [OF w W_Lock ap] show ?thesis
      by (simp split: if_splits)
  next
    case W_Fetch
    with no obtain a p where ap: "arg w = Some a" "heap s a = Some p"
      by (cases "arg w"; cases "heap s (the (arg w))") auto
    from Worker_Fetch [OF w W_Fetch ap] assms Fetch_empty [OF w W_Fetch ap]
      Fetch [OF w W_Fetch ap] show ?thesis
      by (cases "instruction_list p") simp_all
  next
    case (W_Unlock taken)
    with no obtain a p where ap: "arg w = Some a" "heap s a = Some p"
      by (cases "arg w"; cases "heap s (the (arg w))") auto
    from Worker_Unlock [OF w W_Unlock ap] assms Unlock [OF w W_Unlock ap] show ?thesis by simp
  qed
qed

subsection \<open>The steps of a thread inside Instruct, by control point\<close>

lemma Instruct_Entry:
  "callers s c = Some (I_Entry param) \<Longrightarrow>
   Instruct c s = Some (case singleton s of
       None \<Rightarrow> set_ipc c (I_Return False) (log_line WARN msg_not_initialized s)
     | Some a \<Rightarrow> set_ipc c (I_Lock a param) s)"
  by (simp add: Instruct_def split: option.splits)

lemma Instruct_Lock:
  "callers s c = Some (I_Lock a param) \<Longrightarrow> heap s a = Some p \<Longrightarrow>
   Instruct c s = (if thread_list_lock p \<noteq> None then None
     else Some (set_ipc c (I_Push a param)
            (set_obj a (p\<lparr>thread_list_lock := Some (By_Caller c)\<rparr>) s)))"
  by (simp add: Instruct_def SetInstruction_def AutoLock_lock_def split: option.splits)

lemma Instruct_Push:
  "callers s c = Some (I_Push a param) \<Longrightarrow> heap s a = Some p \<Longrightarrow>
   Instruct c s = Some (set_ipc c (I_Unlock a)
     (set_obj a (p\<lparr>instruction_list := instruction_list p @ [param]\<rparr>) s))"
  by (simp add: Instruct_def SetInstruction_def push_back_def)

lemma Instruct_Unlock:
  "callers s c = Some (I_Unlock a) \<Longrightarrow> heap s a = Some p \<Longrightarrow>
   Instruct c s = Some (set_ipc c (I_Post a) (set_obj a (p\<lparr>thread_list_lock := None\<rparr>) s))"
  by (simp add: Instruct_def SetInstruction_def AutoLock_unlock_def)

lemma Instruct_Post:
  "callers s c = Some (I_Post a) \<Longrightarrow> heap s a = Some p \<Longrightarrow>
   Instruct c s = Some (set_ipc c (I_Return True)
     (set_obj a (p\<lparr>thpoolman_sem := Suc (thpoolman_sem p)\<rparr>) s))"
  by (simp add: Instruct_def SetInstruction_def sem_post_def)

lemma Instruct_Return: "callers s c = Some (I_Return r) \<Longrightarrow> Instruct c s = None"
  by (simp add: Instruct_def)

lemma Instruct_no_caller: "callers s c = None \<Longrightarrow> Instruct c s = None"
  by (simp add: Instruct_def)

lemma Instruct_no_object:
  "callers s c = Some i \<Longrightarrow>
   (case i of I_Lock a param \<Rightarrow> heap s a = None | I_Push a param \<Rightarrow> heap s a = None
      | I_Unlock a \<Rightarrow> heap s a = None | I_Post a \<Rightarrow> heap s a = None | _ \<Rightarrow> False) \<Longrightarrow>
   Instruct c s = None"
  by (cases i) (simp_all add: Instruct_def SetInstruction_def)

text \<open>Every step of a thread inside Instruct is one of these.\<close>

lemma Instruct_SomeE:
  assumes "Instruct c s = Some s'"
  obtains
    (Entry_none) param where "callers s c = Some (I_Entry param)" "singleton s = None"
      "s' = set_ipc c (I_Return False) (log_line WARN msg_not_initialized s)"
  | (Entry) param a where "callers s c = Some (I_Entry param)" "singleton s = Some a"
      "s' = set_ipc c (I_Lock a param) s"
  | (Lock) a param p where "callers s c = Some (I_Lock a param)" "heap s a = Some p"
      "thread_list_lock p = None"
      "s' = set_ipc c (I_Push a param) (set_obj a (p\<lparr>thread_list_lock := Some (By_Caller c)\<rparr>) s)"
  | (Push) a param p where "callers s c = Some (I_Push a param)" "heap s a = Some p"
      "s' = set_ipc c (I_Unlock a)
              (set_obj a (p\<lparr>instruction_list := instruction_list p @ [param]\<rparr>) s)"
  | (Unlock) a p where "callers s c = Some (I_Unlock a)" "heap s a = Some p"
      "s' = set_ipc c (I_Post a) (set_obj a (p\<lparr>thread_list_lock := None\<rparr>) s)"
  | (Post) a p where "callers s c = Some (I_Post a)" "heap s a = Some p"
      "s' = set_ipc c (I_Return True) (set_obj a (p\<lparr>thpoolman_sem := Suc (thpoolman_sem p)\<rparr>) s)"
proof (cases "callers s c")
  case None
  with assms show ?thesis by (simp add: Instruct_no_caller)
next
  case (Some i)
  note i = this
  show ?thesis
  proof (cases i)
    case (I_Entry param)
    with i assms Entry_none Entry show ?thesis
      by (cases "singleton s") (simp_all add: Instruct_Entry)
  next
    case (I_Lock a param)
    show ?thesis
    proof (cases "heap s a")
      case None
      with i I_Lock assms Instruct_no_object [OF i] show ?thesis by simp
    next
      case (Some p)
      from Instruct_Lock [OF i [unfolded I_Lock] Some] assms Lock [OF i [unfolded I_Lock] Some]
      show ?thesis by (simp split: if_splits)
    qed
  next
    case (I_Push a param)
    show ?thesis
    proof (cases "heap s a")
      case None
      with i I_Push assms Instruct_no_object [OF i] show ?thesis by simp
    next
      case (Some p)
      from Instruct_Push [OF i [unfolded I_Push] Some] assms Push [OF i [unfolded I_Push] Some]
      show ?thesis by simp
    qed
  next
    case (I_Unlock a)
    show ?thesis
    proof (cases "heap s a")
      case None
      with i I_Unlock assms Instruct_no_object [OF i] show ?thesis by simp
    next
      case (Some p)
      from Instruct_Unlock [OF i [unfolded I_Unlock] Some] assms
        Unlock [OF i [unfolded I_Unlock] Some]
      show ?thesis by simp
    qed
  next
    case (I_Post a)
    show ?thesis
    proof (cases "heap s a")
      case None
      with i I_Post assms Instruct_no_object [OF i] show ?thesis by simp
    next
      case (Some p)
      from Instruct_Post [OF i [unfolded I_Post] Some] assms Post [OF i [unfolded I_Post] Some]
      show ?thesis by simp
    qed
  next
    case (I_Return r)
    with i assms show ?thesis by (simp add: Instruct_Return)
  qed
qed

lemma step_Call_SomeE:
  assumes "step (Act_Call c param) s = Some s'"
  obtains "s' = set_ipc c (I_Entry param) s"
    "callers s c = None \<or> (\<exists>r. callers s c = Some (I_Return r))"
  using assms by (auto simp: step_def split: option.splits ipc.splits)

lemma step_simps [simp]:
  "step (Act_Worker t) s = Worker t s"
  "step (Act_Instruct c) s = Instruct c s"
  by (simp_all add: step_def)

lemma pc_of_set_pc [simp]:
  "pc_of (set_pc t c s) t' = (if t' = t then map_option (\<lambda>_. c) (threads s t) else pc_of s t')"
  by (simp add: pc_of_def option.map_comp comp_def)

lemma pc_of_frame [simp]:
  "pc_of (log_line lv m s) = pc_of s"
  "pc_of (set_obj a p s) = pc_of s"
  "pc_of (upd_obj a f s) = pc_of s"
  "pc_of (set_ipc c i s) = pc_of s"
  "pc_of (s\<lparr>sems := x\<rparr>) = pc_of s"
  by (simp_all add: pc_of_def fun_eq_iff)

lemma Instruct_threads: "Instruct c s = Some s' \<Longrightarrow> threads s' = threads s"
  by (erule Instruct_SomeE) simp_all

lemma step_not_Worker_threads:
  assumes "step a s = Some s'" and "\<And>t. a \<noteq> Act_Worker t"
  shows "threads s' = threads s"
proof (cases a)
  case (Act_Worker t)
  with assms(2) [of t] show ?thesis by simp
next
  case (Act_Instruct c)
  with assms(1) show ?thesis by (simp add: Instruct_threads)
next
  case (Act_Call c param)
  with assms(1) show ?thesis by (auto elim: step_Call_SomeE)
qed

lemma Worker_keeps_Return:
  assumes "Worker u s = Some s'" and "pc_of s t = Some (W_Return r)"
  shows "pc_of s' t = Some (W_Return r)"
proof -
  have "u \<noteq> t"
    using assms by (auto simp: pc_of_def Worker_Return)
  from assms(1) show ?thesis
    by (rule Worker_SomeE) (use \<open>u \<noteq> t\<close> assms(2) in simp_all)
qed

lemma step_keeps_Return:
  assumes "step a s = Some s'" and "pc_of s t = Some (W_Return r)"
  shows "pc_of s' t = Some (W_Return r)"
proof (cases "\<exists>u. a = Act_Worker u")
  case True
  with assms Worker_keeps_Return show ?thesis by auto
next
  case False
  with step_not_Worker_threads [OF assms(1)] assms(2) show ?thesis
    by (simp add: pc_of_def)
qed

lemma run_keeps_Return:
  "run as s = Some s' \<Longrightarrow> pc_of s t = Some (W_Return r) \<Longrightarrow> pc_of s' t = Some (W_Return r)"
proof (induction as arbitrary: s)
  case Nil
  then show ?case by simp
next
  case (Cons a as)
  then obtain s1 where s1: "step a s = Some s1" "run as s1 = Some s'"
    by (auto split: option.splits)
  from step_keeps_Return [OF s1(1) Cons.prems(2)] Cons.IH [OF s1(2)] show ?case by blast
qed

lemma Worker_Return_None: "pc_of s t = Some (W_Return r) \<Longrightarrow> Worker t s = None"
  by (auto simp: pc_of_def Worker_Return)

subsection \<open>The worker loop\<close>

text \<open>
  C2: a worker that finds the exit flag set, at the check after \<^verbatim>\<open>wait\<close> or at the loop
  condition, returns at once: its step changes nothing but its own control point (the
  queue, pending tasks included, the semaphores and the log stay as they are), and in
  every later state of every run the thread is still returned and has no step left, so
  it takes no task after it has seen the flag.
\<close>

theorem exit_flag_first:
  assumes "threads s t = Some w" and "arg w = Some this" and "heap s this = Some p"
    and "is_exit p" and "pc w = W_IsExit \<or> pc w = W_While"
  shows "Worker t s = Some (set_pc t (W_Return 0) s)
       \<and> heap (set_pc t (W_Return 0) s) = heap s
       \<and> sems (set_pc t (W_Return 0) s) = sems s
       \<and> logs (set_pc t (W_Return 0) s) = logs s
       \<and> (\<forall>as s'. run as (set_pc t (W_Return 0) s) = Some s' \<longrightarrow>
             pc_of s' t = Some (W_Return 0) \<and> Worker t s' = None)"
proof -
  have 1: "Worker t s = Some (set_pc t (W_Return 0) s)"
    using assms Worker_IsExit [of s t w this p] Worker_While [of s t w this p] by auto
  have 2: "pc_of (set_pc t (W_Return 0) s) t = Some (W_Return 0)"
    using assms(1) by simp
  show ?thesis
    using 1 2 run_keeps_Return Worker_Return_None by auto
qed

text \<open>
  C5: after \<^verbatim>\<open>param.pfunc(param.args)\<close> the worker always stands before the signalling
  statement for the same descriptor, having changed nothing but the log (a warning
  exactly when the result is not null); its next step posts the descriptor's completion
  semaphore once, if there is one, and leads back to the loop condition. The result of
  the task has no other effect: the pool object, the other threads and the queue are
  untouched.
\<close>

theorem completion_signal_once:
  assumes "threads s t = Some w" and "pc w = W_Call param"
  shows "Worker t s = Some (set_pc t (W_Signal param)
             (if pfunc param (args param) \<noteq> 0 then log_line WARN msg_task_error s else s))
       \<and> run_threads [t, t] s =
           set_pc t W_While
             ((case psem param of None \<Rightarrow> (\<lambda>s. s)
               | Some m \<Rightarrow> (\<lambda>s. s\<lparr>sems := (sems s)(m := Suc (sems s m))\<rparr>))
              (if pfunc param (args param) \<noteq> 0 then log_line WARN msg_task_error s else s))"
proof -
  let ?s0 = "if pfunc param (args param) \<noteq> 0 then log_line WARN msg_task_error s else s"
  let ?s1 = "set_pc t (W_Signal param) ?s0"
  have 1: "Worker t s = Some ?s1"
    using Worker_Call [OF assms] .
  have t1: "threads ?s1 t = Some (w\<lparr>pc := W_Signal param\<rparr>)"
    using assms(1) by simp
  have 2: "Worker t ?s1 = Some (set_pc t W_While
     (case psem param of None \<Rightarrow> ?s1 | Some m \<Rightarrow> ?s1\<lparr>sems := (sems ?s1)(m := Suc (sems ?s1 m))\<rparr>))"
    using Worker_Signal [OF t1] by simp
  have 3: "set_pc t W_While
     (case psem param of None \<Rightarrow> ?s1 | Some m \<Rightarrow> ?s1\<lparr>sems := (sems ?s1)(m := Suc (sems ?s1 m))\<rparr>)
     = set_pc t W_While
             ((case psem param of None \<Rightarrow> (\<lambda>s. s)
               | Some m \<Rightarrow> (\<lambda>s. s\<lparr>sems := (sems s)(m := Suc (sems s m))\<rparr>)) ?s0)"
    using assms(1) by (cases "psem param") (simp_all add: set_pc_def log_line_def)
  show ?thesis using 1 2 3 by simp
qed

subsection \<open>The holders of the mutex\<close>

lemma lock_inv_holders:
  "lock_inv s \<longleftrightarrow>
     (\<forall>this p. heap s this = Some p \<longrightarrow> holders s this = set_option (thread_list_lock p))"
proof -
  have "holders s this = set_option l \<longleftrightarrow>
      (\<forall>t. (\<exists>w. threads s t = Some w \<and> worker_in_block this w) \<longleftrightarrow> l = Some (By_Worker t))
      \<and> (\<forall>c. (\<exists>i. callers s c = Some i \<and> caller_in_block this i) \<longleftrightarrow> l = Some (By_Caller c))"
    for this l
  proof
    assume h: "holders s this = set_option l"
    have "By_Worker t \<in> holders s this \<longleftrightarrow> (\<exists>w. threads s t = Some w \<and> worker_in_block this w)"
      for t by (auto simp: holders_def)
    moreover have "By_Caller c \<in> holders s this
        \<longleftrightarrow> (\<exists>i. callers s c = Some i \<and> caller_in_block this i)"
      for c by (auto simp: holders_def)
    ultimately show "(\<forall>t. (\<exists>w. threads s t = Some w \<and> worker_in_block this w) \<longleftrightarrow> l = Some (By_Worker t))
      \<and> (\<forall>c. (\<exists>i. callers s c = Some i \<and> caller_in_block this i) \<longleftrightarrow> l = Some (By_Caller c))"
      unfolding h by simp
  next
    assume a: "(\<forall>t. (\<exists>w. threads s t = Some w \<and> worker_in_block this w) \<longleftrightarrow> l = Some (By_Worker t))
      \<and> (\<forall>c. (\<exists>i. callers s c = Some i \<and> caller_in_block this i) \<longleftrightarrow> l = Some (By_Caller c))"
    have "x \<in> holders s this \<longleftrightarrow> x \<in> set_option l" for x
    proof (cases x)
      case (By_Worker t)
      have "By_Worker t \<in> holders s this \<longleftrightarrow> (\<exists>w. threads s t = Some w \<and> worker_in_block this w)"
        by (auto simp: holders_def)
      with a By_Worker show ?thesis by simp
    next
      case (By_Caller c)
      have "By_Caller c \<in> holders s this
          \<longleftrightarrow> (\<exists>i. callers s c = Some i \<and> caller_in_block this i)"
        by (auto simp: holders_def)
      with a By_Caller show ?thesis by simp
    qed
    then show "holders s this = set_option l" by blast
  qed
  then show ?thesis
    unfolding lock_inv_def by simp
qed

lemma lock_invI:
  "(\<And>this p. heap s this = Some p \<Longrightarrow> holders s this = set_option (thread_list_lock p))
   \<Longrightarrow> lock_inv s"
  unfolding lock_inv_holders by blast

lemma lock_invD:
  "lock_inv s \<Longrightarrow> heap s this = Some p \<Longrightarrow> holders s this = set_option (thread_list_lock p)"
  unfolding lock_inv_holders by blast

lemma holders_frame [simp]:
  "holders (log_line lv m s) = holders s"
  "holders (set_obj a p s) = holders s"
  "holders (s\<lparr>sems := x\<rparr>) = holders s"
  by (simp_all add: holders_def fun_eq_iff)

lemma By_Worker_holders:
  "threads s t = Some w \<Longrightarrow> By_Worker t \<in> holders s a \<longleftrightarrow> worker_in_block a w"
  by (auto simp: holders_def)

lemma By_Caller_holders:
  "callers s c = Some i \<Longrightarrow> By_Caller c \<in> holders s a \<longleftrightarrow> caller_in_block a i"
  by (auto simp: holders_def)

lemma By_Caller_holders_None: "callers s c = None \<Longrightarrow> By_Caller c \<notin> holders s a"
  by (auto simp: holders_def)

lemma holders_set_pc:
  assumes "threads s t = Some w"
  shows "holders (set_pc t c s) a =
           (holders s a - {By_Worker t})
           \<union> (if worker_in_block a (w\<lparr>pc := c\<rparr>) then {By_Worker t} else {})"
proof -
  have "x \<in> holders (set_pc t c s) a \<longleftrightarrow>
      x \<in> (holders s a - {By_Worker t})
           \<union> (if worker_in_block a (w\<lparr>pc := c\<rparr>) then {By_Worker t} else {})" for x
  proof (cases x)
    case (By_Worker u)
    show ?thesis
    proof (cases "u = t")
      case True
      have "threads (set_pc t c s) t = Some (w\<lparr>pc := c\<rparr>)"
        using assms by simp
      from By_Worker_holders [OF this, of a] By_Worker True show ?thesis by simp
    next
      case False
      then have "threads (set_pc t c s) u = threads s u" by simp
      then have "By_Worker u \<in> holders (set_pc t c s) a \<longleftrightarrow> By_Worker u \<in> holders s a"
        by (simp add: holders_def)
      with By_Worker False show ?thesis by simp
    qed
  next
    case (By_Caller c')
    have "By_Caller c' \<in> holders (set_pc t c s) a \<longleftrightarrow> By_Caller c' \<in> holders s a"
      by (simp add: holders_def)
    with By_Caller show ?thesis by simp
  qed
  then show ?thesis by blast
qed

lemma holders_set_ipc:
  "holders (set_ipc c i s) a =
     (holders s a - {By_Caller c}) \<union> (if caller_in_block a i then {By_Caller c} else {})"
proof -
  have "x \<in> holders (set_ipc c i s) a \<longleftrightarrow>
      x \<in> (holders s a - {By_Caller c}) \<union> (if caller_in_block a i then {By_Caller c} else {})"
    for x
  proof (cases x)
    case (By_Worker u)
    have "By_Worker u \<in> holders (set_ipc c i s) a \<longleftrightarrow> By_Worker u \<in> holders s a"
      by (simp add: holders_def)
    with By_Worker show ?thesis by simp
  next
    case (By_Caller c')
    show ?thesis
    proof (cases "c' = c")
      case True
      have "callers (set_ipc c i s) c = Some i" by simp
      from By_Caller_holders [OF this, of a] By_Caller True show ?thesis by simp
    next
      case False
      then have "callers (set_ipc c i s) c' = callers s c'" by simp
      then have "By_Caller c' \<in> holders (set_ipc c i s) a \<longleftrightarrow> By_Caller c' \<in> holders s a"
        by (simp add: holders_def)
      with By_Caller False show ?thesis by simp
    qed
  qed
  then show ?thesis by blast
qed

text \<open>A move of a thread that stays outside the block, or stays inside it.\<close>

lemma holders_set_pc_same:
  assumes "threads s t = Some w" and "\<And>a. worker_in_block a (w\<lparr>pc := c\<rparr>) = worker_in_block a w"
  shows "holders (set_pc t c s) a = holders s a"
  using holders_set_pc [OF assms(1), of c a] By_Worker_holders [OF assms(1), of a] assms(2) [of a]
  by auto

lemma holders_set_ipc_same:
  assumes "callers s c = Some j" and "\<And>a. caller_in_block a i = caller_in_block a j"
  shows "holders (set_ipc c i s) a = holders s a"
  using holders_set_ipc [of c i s a] By_Caller_holders [OF assms(1), of a] assms(2) [of a]
  by auto

lemma lock_inv_same:
  assumes "lock_inv s" and "\<And>a. holders s' a = holders s a"
    and "\<And>a p'. heap s' a = Some p' \<Longrightarrow>
           \<exists>p. heap s a = Some p \<and> thread_list_lock p' = thread_list_lock p"
  shows "lock_inv s'"
proof (rule lock_invI)
  fix this p'
  assume "heap s' this = Some p'"
  from assms(3) [OF this] obtain p where "heap s this = Some p"
    "thread_list_lock p' = thread_list_lock p" by blast
  with lock_invD [OF assms(1) this(1)] assms(2) [of this]
  show "holders s' this = set_option (thread_list_lock p')" by simp
qed

lemma lock_inv_frame [simp]:
  "lock_inv (log_line lv m s) = lock_inv s"
  "lock_inv (s\<lparr>sems := x\<rparr>) = lock_inv s"
  by (simp_all add: lock_inv_holders)

lemma lock_inv_set_obj_same:
  assumes "lock_inv s" and "heap s a = Some p" and "thread_list_lock p' = thread_list_lock p"
  shows "lock_inv (set_obj a p' s)"
proof (rule lock_inv_same [OF assms(1)])
  show "holders (set_obj a p' s) b = holders s b" for b by simp
  show "\<exists>p. heap s b = Some p \<and> thread_list_lock q = thread_list_lock p"
    if "heap (set_obj a p' s) b = Some q" for b q
    using that assms(2,3) by (cases "b = a") auto
qed

lemma lock_inv_set_pc_same:
  assumes "lock_inv s" and "threads s t = Some w"
    and "\<And>a. worker_in_block a (w\<lparr>pc := c\<rparr>) = worker_in_block a w"
  shows "lock_inv (set_pc t c s)"
proof (rule lock_inv_same [OF assms(1)])
  show "holders (set_pc t c s) b = holders s b" for b
    by (rule holders_set_pc_same [OF assms(2,3)])
  show "\<exists>p. heap s b = Some p \<and> thread_list_lock q = thread_list_lock p"
    if "heap (set_pc t c s) b = Some q" for b q
    using that by simp
qed

lemma lock_inv_set_ipc_same:
  assumes "lock_inv s" and "callers s c = Some j"
    and "\<And>a. caller_in_block a i = caller_in_block a j"
  shows "lock_inv (set_ipc c i s)"
proof (rule lock_inv_same [OF assms(1)])
  show "holders (set_ipc c i s) b = holders s b" for b
    by (rule holders_set_ipc_same [OF assms(2,3)])
  show "\<exists>p. heap s b = Some p \<and> thread_list_lock q = thread_list_lock p"
    if "heap (set_ipc c i s) b = Some q" for b q
    using that by simp
qed

text \<open>Taking and releasing the mutex.\<close>

lemma lock_inv_acquire:
  assumes "lock_inv s" and "heap s a = Some p" and "thread_list_lock p = None"
    and "\<And>b. holders s' b = (if b = a then insert x (holders s b) else holders s b)"
    and "heap s' = (heap s)(a \<mapsto> p\<lparr>thread_list_lock := Some x\<rparr>)"
  shows "lock_inv s'"
proof (rule lock_invI)
  fix this q
  assume q: "heap s' this = Some q"
  show "holders s' this = set_option (thread_list_lock q)"
  proof (cases "this = a")
    case True
    with q assms(5) have "q = p\<lparr>thread_list_lock := Some x\<rparr>" by simp
    with lock_invD [OF assms(1,2)] assms(3,4) True show ?thesis by simp
  next
    case False
    with q assms(5) have "heap s this = Some q" by simp
    from lock_invD [OF assms(1) this] assms(4) False show ?thesis by simp
  qed
qed

lemma lock_inv_release:
  assumes "lock_inv s" and "heap s a = Some p" and "x \<in> holders s a"
    and "\<And>b. holders s' b = (if b = a then holders s b - {x} else holders s b)"
    and "heap s' = (heap s)(a \<mapsto> p\<lparr>thread_list_lock := None\<rparr>)"
  shows "lock_inv s'"
proof (rule lock_invI)
  fix this q
  assume q: "heap s' this = Some q"
  show "holders s' this = set_option (thread_list_lock q)"
  proof (cases "this = a")
    case True
    with q assms(5) have q': "q = p\<lparr>thread_list_lock := None\<rparr>" by simp
    from lock_invD [OF assms(1,2)] assms(3) have "holders s a = {x}"
      by (cases "thread_list_lock p") auto
    with assms(4) True q' show ?thesis by simp
  next
    case False
    with q assms(5) have "heap s this = Some q" by simp
    from lock_invD [OF assms(1) this] assms(4) False show ?thesis by simp
  qed
qed

lemma Worker_lock_inv:
  assumes "Worker t s = Some s'" and "lock_inv s"
  shows "lock_inv s'"
  using assms(1)
proof (cases rule: Worker_SomeE)
  case (Entry_null w)
  then show ?thesis
    by (auto intro!: lock_inv_set_pc_same simp: assms(2) worker_in_block_def)
next
  case (Entry w a)
  then show ?thesis
    by (auto intro!: lock_inv_set_pc_same simp: assms(2) worker_in_block_def)
next
  case (Call w param)
  then show ?thesis
    by (auto intro!: lock_inv_set_pc_same simp: assms(2) worker_in_block_def)
next
  case (Signal_none w param)
  then show ?thesis
    by (auto intro!: lock_inv_set_pc_same simp: assms(2) worker_in_block_def)
next
  case (Signal w param m)
  then show ?thesis
    by (auto intro!: lock_inv_set_pc_same simp: assms(2) worker_in_block_def)
next
  case (While w a p)
  then show ?thesis
    by (auto intro!: lock_inv_set_pc_same simp: assms(2) worker_in_block_def)
next
  case (Wait w a p)
  have "lock_inv (set_obj a (p\<lparr>thpoolman_sem := thpoolman_sem p - 1\<rparr>) s)"
    by (rule lock_inv_set_obj_same [OF assms(2) Wait(4)]) simp
  with Wait show ?thesis
    by (auto intro!: lock_inv_set_pc_same simp: worker_in_block_def)
next
  case (IsExit w a p)
  then show ?thesis
    by (auto intro!: lock_inv_set_pc_same simp: assms(2) worker_in_block_def)
next
  case (Lock w a p)
  let ?s1 = "set_obj a (p\<lparr>thread_list_lock := Some (By_Worker t)\<rparr>) s"
  have n: "By_Worker t \<notin> holders s b" for b
    using By_Worker_holders [OF Lock(1), of b] Lock(2) by (simp add: worker_in_block_def)
  have h: "holders s' b = (if b = a then insert (By_Worker t) (holders s b) else holders s b)"
    for b
    unfolding Lock(6) using holders_set_pc [of ?s1 t w W_Fetch b] Lock(1,3) n [of b]
    by (auto simp: worker_in_block_def)
  show ?thesis
    by (rule lock_inv_acquire [OF assms(2) Lock(4,5) h]) (simp add: Lock(6) set_obj_def)
next
  case (Fetch_empty w a p)
  then show ?thesis
    by (auto intro!: lock_inv_set_pc_same simp: assms(2) worker_in_block_def)
next
  case (Fetch w a p param rest)
  have "lock_inv (set_obj a (p\<lparr>instruction_list := rest\<rparr>) s)"
    by (rule lock_inv_set_obj_same [OF assms(2) Fetch(4)]) simp
  with Fetch show ?thesis
    by (auto intro!: lock_inv_set_pc_same simp: worker_in_block_def)
next
  case (Unlock w a p taken)
  let ?s1 = "set_obj a (p\<lparr>thread_list_lock := None\<rparr>) s"
  let ?c = "case taken of None \<Rightarrow> W_While | Some param \<Rightarrow> W_Call param"
  have i: "By_Worker t \<in> holders s b \<longleftrightarrow> b = a" for b
    using By_Worker_holders [OF Unlock(1), of b] Unlock(2,3) by (auto simp: worker_in_block_def)
  have o: "\<not> worker_in_block b (w\<lparr>pc := ?c\<rparr>)" for b
    by (cases taken) (simp_all add: worker_in_block_def)
  have h: "holders s' b = (if b = a then holders s b - {By_Worker t} else holders s b)" for b
    unfolding Unlock(5) using holders_set_pc [of ?s1 t w ?c b] Unlock(1) i [of b] o [of b]
    by auto
  show ?thesis
    by (rule lock_inv_release [OF assms(2) Unlock(4) _ h])
       (simp_all add: i Unlock(5) set_obj_def)
qed

lemma Instruct_lock_inv:
  assumes "Instruct c s = Some s'" and "lock_inv s"
  shows "lock_inv s'"
  using assms(1)
proof (cases rule: Instruct_SomeE)
  case (Entry_none param)
  then show ?thesis
    by (auto intro!: lock_inv_set_ipc_same simp: assms(2) caller_in_block_def)
next
  case (Entry param a)
  then show ?thesis
    by (auto intro!: lock_inv_set_ipc_same simp: assms(2) caller_in_block_def)
next
  case (Lock a param p)
  let ?s1 = "set_obj a (p\<lparr>thread_list_lock := Some (By_Caller c)\<rparr>) s"
  have n: "By_Caller c \<notin> holders s b" for b
    using By_Caller_holders [OF Lock(1), of b] by (simp add: caller_in_block_def)
  have h: "holders s' b = (if b = a then insert (By_Caller c) (holders s b) else holders s b)"
    for b
    unfolding Lock(4) using holders_set_ipc [of c "I_Push a param" ?s1 b] n [of b]
    by (auto simp: caller_in_block_def)
  show ?thesis
    by (rule lock_inv_acquire [OF assms(2) Lock(2,3) h]) (simp add: Lock(4) set_obj_def)
next
  case (Push a param p)
  have "lock_inv (set_obj a (p\<lparr>instruction_list := instruction_list p @ [param]\<rparr>) s)"
    by (rule lock_inv_set_obj_same [OF assms(2) Push(2)]) simp
  with Push show ?thesis
    by (auto intro!: lock_inv_set_ipc_same simp: caller_in_block_def)
next
  case (Unlock a p)
  let ?s1 = "set_obj a (p\<lparr>thread_list_lock := None\<rparr>) s"
  have i: "By_Caller c \<in> holders s b \<longleftrightarrow> b = a" for b
    using By_Caller_holders [OF Unlock(1), of b] by (auto simp: caller_in_block_def)
  have h: "holders s' b = (if b = a then holders s b - {By_Caller c} else holders s b)" for b
    unfolding Unlock(3) using holders_set_ipc [of c "I_Post a" ?s1 b] i [of b]
    by (auto simp: caller_in_block_def)
  show ?thesis
    by (rule lock_inv_release [OF assms(2) Unlock(2) _ h])
       (simp_all add: i Unlock(3) set_obj_def)
next
  case (Post a p)
  have "lock_inv (set_obj a (p\<lparr>thpoolman_sem := Suc (thpoolman_sem p)\<rparr>) s)"
    by (rule lock_inv_set_obj_same [OF assms(2) Post(2)]) simp
  with Post show ?thesis
    by (auto intro!: lock_inv_set_ipc_same simp: caller_in_block_def)
qed

lemma step_lock_inv:
  assumes "step a s = Some s'" and "lock_inv s"
  shows "lock_inv s'"
proof (cases a)
  case (Act_Worker t)
  with assms show ?thesis by (simp add: Worker_lock_inv)
next
  case (Act_Instruct c)
  with assms show ?thesis by (simp add: Instruct_lock_inv)
next
  case (Act_Call c param)
  from assms(1) [unfolded Act_Call] have s': "s' = set_ipc c (I_Entry param) s"
    and b: "callers s c = None \<or> (\<exists>r. callers s c = Some (I_Return r))"
    by (auto elim: step_Call_SomeE)
  have n: "By_Caller c \<notin> holders s b" for b
    using b By_Caller_holders_None [of s c b] By_Caller_holders [of s c _ b]
    by (auto simp: caller_in_block_def)
  show ?thesis
  proof (rule lock_inv_same [OF assms(2)])
    show "holders s' b = holders s b" for b
      unfolding s' using holders_set_ipc [of c "I_Entry param" s b] n [of b]
      by (auto simp: caller_in_block_def)
    show "\<exists>p. heap s b = Some p \<and> thread_list_lock q = thread_list_lock p"
      if "heap s' b = Some q" for b q
      using that by (simp add: s')
  qed
qed

lemma run_lock_inv: "run as s = Some s' \<Longrightarrow> lock_inv s \<Longrightarrow> lock_inv s'"
proof (induction as arbitrary: s)
  case Nil
  then show ?case by simp
next
  case (Cons a as)
  then obtain s1 where s1: "step a s = Some s1" "run as s1 = Some s'"
    by (auto split: option.splits)
  from Cons.IH [OF s1(2) step_lock_inv [OF s1(1) Cons.prems(2)]] show ?case .
qed

subsection \<open>The order of the queue\<close>

lemma Worker_fifo:
  assumes "Worker t s = Some s'" and "heap s this = Some p"
  shows "\<exists>p'. heap s' this = Some p' \<and> took this t s s' @ instruction_list p' = instruction_list p"
  using assms(1)
  by (rule Worker_SomeE) (use assms(2) in \<open>auto simp: took_def\<close>)

lemma Instruct_fifo:
  assumes "Instruct c s = Some s'" and "heap s this = Some p"
  shows "\<exists>p'. heap s' this = Some p' \<and> instruction_list p' = instruction_list p @ gave this c s s'"
  using assms(1)
  by (rule Instruct_SomeE) (use assms(2) in \<open>auto simp: gave_def\<close>)

lemma step_fifo:
  assumes "step a s = Some s'" and "heap s this = Some p"
  shows "\<exists>p'. heap s' this = Some p' \<and>
           (case a of Act_Worker t \<Rightarrow> took this t s s' | _ \<Rightarrow> []) @ instruction_list p'
             = instruction_list p @ (case a of Act_Instruct c \<Rightarrow> gave this c s s' | _ \<Rightarrow> [])"
proof (cases a)
  case (Act_Worker t)
  with assms Worker_fifo [of t s s' this p] show ?thesis by simp
next
  case (Act_Instruct c)
  with assms Instruct_fifo [of c s s' this p] show ?thesis by simp
next
  case (Act_Call c param)
  from assms(1) [unfolded Act_Call] have "s' = set_ipc c (I_Entry param) s"
    by (auto elim: step_Call_SomeE)
  with assms(2) Act_Call show ?thesis by simp
qed

lemma Worker_locked:
  assumes "Worker t s = Some s'" and "lock_inv s"
  shows "map_option instruction_list (heap s' this) = map_option instruction_list (heap s this)
       \<or> map_option thread_list_lock (heap s this) = Some (Some (By_Worker t))"
  using assms(1)
proof (cases rule: Worker_SomeE)
  case (Fetch w a p param rest)
  have "By_Worker t \<in> holders s a"
    using By_Worker_holders [OF Fetch(1), of a] Fetch(2,3) by (simp add: worker_in_block_def)
  with lock_invD [OF assms(2) Fetch(4)] have "thread_list_lock p = Some (By_Worker t)"
    by simp
  with Fetch show ?thesis by (cases "this = a") simp_all
qed auto

lemma Instruct_locked:
  assumes "Instruct c s = Some s'" and "lock_inv s"
  shows "map_option instruction_list (heap s' this) = map_option instruction_list (heap s this)
       \<or> map_option thread_list_lock (heap s this) = Some (Some (By_Caller c))"
  using assms(1)
proof (cases rule: Instruct_SomeE)
  case (Push a param p)
  have "By_Caller c \<in> holders s a"
    using By_Caller_holders [OF Push(1), of a] by (simp add: caller_in_block_def)
  with lock_invD [OF assms(2) Push(2)] have "thread_list_lock p = Some (By_Caller c)"
    by simp
  with Push show ?thesis by (cases "this = a") simp_all
qed auto

lemma step_locked:
  assumes "step a s = Some s'" and "lock_inv s"
  shows "map_option instruction_list (heap s' this) = map_option instruction_list (heap s this)
       \<or> map_option thread_list_lock (heap s this) = Some (Some (actor a))"
proof (cases a)
  case (Act_Worker t)
  with assms Worker_locked [of t s s' this] show ?thesis by (simp add: actor_def)
next
  case (Act_Instruct c)
  with assms Instruct_locked [of c s s' this] show ?thesis by (simp add: actor_def)
next
  case (Act_Call c param)
  from assms(1) [unfolded Act_Call] have "s' = set_ipc c (I_Entry param) s"
    by (auto elim: step_Call_SomeE)
  then show ?thesis by simp
qed

lemma run_locked: "run as s = Some s' \<Longrightarrow> lock_inv s \<Longrightarrow> locked_access this as s"
proof (induction as arbitrary: s)
  case Nil
  then show ?case by simp
next
  case (Cons a as)
  then obtain s1 where s1: "step a s = Some s1" "run as s1 = Some s'"
    by (auto split: option.splits)
  from Cons.IH [OF s1(2) step_lock_inv [OF s1(1) Cons.prems(2)]]
    step_locked [OF s1(1) Cons.prems(2), of this] s1(1)
  show ?case by simp
qed

lemma run_fifo:
  assumes "run as s = Some s'" and "heap s this = Some p"
  shows "\<exists>p'. heap s' this = Some p' \<and>
           dequeued this as s @ instruction_list p' = instruction_list p @ enqueued this as s"
  using assms
proof (induction as arbitrary: s p)
  case Nil
  then show ?case by simp
next
  case (Cons a as)
  then obtain s1 where s1: "step a s = Some s1" "run as s1 = Some s'"
    by (auto split: option.splits)
  let ?d = "case a of Act_Worker t \<Rightarrow> took this t s s1 | _ \<Rightarrow> []"
  let ?e = "case a of Act_Instruct c \<Rightarrow> gave this c s s1 | _ \<Rightarrow> []"
  from step_fifo [OF s1(1) Cons.prems(2)] obtain p1 where p1: "heap s1 this = Some p1"
    "?d @ instruction_list p1 = instruction_list p @ ?e" by blast
  from Cons.IH [OF s1(2) p1(1)] obtain p' where p': "heap s' this = Some p'"
    "dequeued this as s1 @ instruction_list p' = instruction_list p1 @ enqueued this as s1"
    by blast
  have "dequeued this (a # as) s @ instruction_list p'
      = ?d @ (dequeued this as s1 @ instruction_list p')"
    using s1(1) by simp
  also have "\<dots> = (?d @ instruction_list p1) @ enqueued this as s1"
    unfolding p'(2) by simp
  also have "\<dots> = instruction_list p @ (?e @ enqueued this as s1)"
    unfolding p1(2) by simp
  also have "?e @ enqueued this as s1 = enqueued this (a # as) s"
    using s1(1) by simp
  finally show ?case using p'(1) by blast
qed

subsection \<open>A whole call of Instruct\<close>

lemma Instruct_call_steps:
  assumes "callers s c = Some (I_Entry param)" and "singleton s = Some this"
    and "heap s this = Some p" and "thread_list_lock p = None"
  shows "run [Act_Instruct c] s = Some (set_ipc c (I_Lock this param) s)"
    and "run [Act_Instruct c, Act_Instruct c] s
           = Some (set_ipc c (I_Push this param)
               (set_obj this (p\<lparr>thread_list_lock := Some (By_Caller c)\<rparr>) s))"
    and "run [Act_Instruct c, Act_Instruct c, Act_Instruct c] s
           = Some (set_ipc c (I_Unlock this)
               (set_obj this (push_back param (p\<lparr>thread_list_lock := Some (By_Caller c)\<rparr>)) s))"
    and "run [Act_Instruct c, Act_Instruct c, Act_Instruct c, Act_Instruct c] s
           = Some (set_ipc c (I_Post this) (set_obj this (push_back param p) s))"
    and "run [Act_Instruct c, Act_Instruct c, Act_Instruct c, Act_Instruct c, Act_Instruct c] s
           = Some (set_ipc c (I_Return True) (set_obj this (sem_post (push_back param p)) s))"
    and "enqueued this
           [Act_Instruct c, Act_Instruct c, Act_Instruct c, Act_Instruct c, Act_Instruct c] s
           = [param]"
proof -
  let ?q = "p\<lparr>thread_list_lock := Some (By_Caller c)\<rparr>"
  let ?s1 = "set_ipc c (I_Lock this param) s"
  let ?s2 = "set_ipc c (I_Push this param) (set_obj this ?q s)"
  let ?s3 = "set_ipc c (I_Unlock this) (set_obj this (push_back param ?q) s)"
  let ?s4 = "set_ipc c (I_Post this) (set_obj this (push_back param p) s)"
  let ?s5 = "set_ipc c (I_Return True) (set_obj this (sem_post (push_back param p)) s)"
  have 1: "Instruct c s = Some ?s1"
    using Instruct_Entry [OF assms(1)] assms(2) by simp
  have 2: "Instruct c ?s1 = Some ?s2"
    using Instruct_Lock [of ?s1 c this param p] assms(3,4)
    by (simp add: set_ipc_def set_obj_def)
  have 3: "Instruct c ?s2 = Some ?s3"
    using Instruct_Push [of ?s2 c this param ?q]
    by (simp add: set_ipc_def set_obj_def push_back_def)
  have u: "(push_back param ?q)\<lparr>thread_list_lock := None\<rparr> = push_back param p"
    using assms(4) by (simp add: push_back_def)
  have 4: "Instruct c ?s3 = Some ?s4"
    using Instruct_Unlock [of ?s3 c this "push_back param ?q"] u
    by (simp add: set_ipc_def set_obj_def)
  have 5: "Instruct c ?s4 = Some ?s5"
    using Instruct_Post [of ?s4 c this "push_back param p"]
    by (simp add: set_ipc_def set_obj_def sem_post_def)
  show "run [Act_Instruct c] s = Some ?s1"
    using 1 by simp
  show "run [Act_Instruct c, Act_Instruct c] s = Some ?s2"
    using 1 2 by simp
  show "run [Act_Instruct c, Act_Instruct c, Act_Instruct c] s = Some ?s3"
    using 1 2 3 by simp
  show "run [Act_Instruct c, Act_Instruct c, Act_Instruct c, Act_Instruct c] s = Some ?s4"
    using 1 2 3 4 by simp
  show "run [Act_Instruct c, Act_Instruct c, Act_Instruct c, Act_Instruct c, Act_Instruct c] s
      = Some ?s5"
    using 1 2 3 4 5 by simp
  have g: "gave this c s ?s1 = []" "gave this c ?s1 ?s2 = []" "gave this c ?s2 ?s3 = [param]"
    "gave this c ?s3 ?s4 = []" "gave this c ?s4 ?s5 = []"
    using assms(1) by (simp_all add: gave_def)
  show "enqueued this
      [Act_Instruct c, Act_Instruct c, Act_Instruct c, Act_Instruct c, Act_Instruct c] s = [param]"
    using 1 2 3 4 5 g by simp
qed

lemma holder_blocks:
  assumes "lock_inv s" and "heap s this = Some p"
    and "threads s t = Some w" and "worker_in_block this w"
  shows "thread_list_lock p = Some (By_Worker t)"
proof -
  have "By_Worker t \<in> holders s this"
    using By_Worker_holders [OF assms(3)] assms(4) by simp
  then show ?thesis
    unfolding lock_invD [OF assms(1,2)] by (cases "thread_list_lock p") simp_all
qed

lemma run_pops_bounded:
  assumes "run as s = Some s'" and "heap s this = Some p"
  shows "length (dequeued this as s) \<le> length (instruction_list p) + length (enqueued this as s)"
proof -
  from run_fifo [OF assms] obtain p' :: ThreadPoolMan where
    "dequeued this as s @ instruction_list p' = instruction_list p @ enqueued this as s"
    by blast
  then have "length (dequeued this as s @ instruction_list p')
      = length (instruction_list p @ enqueued this as s)"
    by simp
  then show ?thesis by simp
qed

subsection \<open>First in, first out\<close>

text \<open>
  C1: in every interleaving of steps of workers and of threads inside \<^verbatim>\<open>Instruct\<close>, the
  descriptors the workers of an object have taken, in the order of the taking, followed
  by the queue that is left, are the initial queue followed by the descriptors that
  \<^verbatim>\<open>SetInstruction\<close> has pushed for \<^verbatim>\<open>Instruct\<close>, in the order of the pushes. When the
  mutex is held exactly by the thread inside a block at the start, it is so at the end,
  and every move of the run that changes the queue is made by the thread that holds the
  mutex. A call of \<^verbatim>\<open>Instruct\<close> that finds the mutex free and runs to its end is one such
  push: it appends its descriptor at the back of the queue while it holds the mutex,
  posts the wakeup semaphore and returns true.
\<close>

theorem fifo_order:
  assumes "run as s = Some s'" and "heap s this = Some p"
  shows "\<exists>p'. heap s' this = Some p'
           \<and> dequeued this as s @ instruction_list p' = instruction_list p @ enqueued this as s
           \<and> (lock_inv s \<longrightarrow> lock_inv s' \<and> locked_access this as s)
           \<and> (\<forall>c param. callers s' c = Some (I_Entry param) \<and> singleton s' = Some this
                  \<and> thread_list_lock p' = None \<longrightarrow>
                run [Act_Instruct c, Act_Instruct c, Act_Instruct c] s'
                  = Some (set_ipc c (I_Unlock this)
                      (set_obj this (push_back param
                          (p'\<lparr>thread_list_lock := Some (By_Caller c)\<rparr>)) s'))
                \<and> run [Act_Instruct c, Act_Instruct c, Act_Instruct c, Act_Instruct c,
                        Act_Instruct c] s'
                  = Some (set_ipc c (I_Return True)
                      (set_obj this (sem_post (push_back param p')) s'))
                \<and> enqueued this (as @ [Act_Instruct c, Act_Instruct c, Act_Instruct c,
                        Act_Instruct c, Act_Instruct c]) s
                  = enqueued this as s @ [param])"
proof -
  from run_fifo [OF assms] obtain p' where p': "heap s' this = Some p'"
    "dequeued this as s @ instruction_list p' = instruction_list p @ enqueued this as s"
    by blast
  have l: "lock_inv s \<longrightarrow> lock_inv s' \<and> locked_access this as s"
    using run_lock_inv [OF assms(1)] run_locked [OF assms(1), of this] by blast
  have app: "enqueued this (as @ bs) s = enqueued this as s @ enqueued this bs s'" for bs
    using assms(1)
  proof (induction as arbitrary: s)
    case Nil
    then show ?case by simp
  next
    case (Cons a as)
    then show ?case by (auto split: option.splits)
  qed
  have c: "run [Act_Instruct c, Act_Instruct c, Act_Instruct c] s'
                  = Some (set_ipc c (I_Unlock this)
                      (set_obj this (push_back param
                          (p'\<lparr>thread_list_lock := Some (By_Caller c)\<rparr>)) s'))
                \<and> run [Act_Instruct c, Act_Instruct c, Act_Instruct c, Act_Instruct c,
                        Act_Instruct c] s'
                  = Some (set_ipc c (I_Return True)
                      (set_obj this (sem_post (push_back param p')) s'))
                \<and> enqueued this (as @ [Act_Instruct c, Act_Instruct c, Act_Instruct c,
                        Act_Instruct c, Act_Instruct c]) s
                  = enqueued this as s @ [param]"
    if "callers s' c = Some (I_Entry param) \<and> singleton s' = Some this
                  \<and> thread_list_lock p' = None" for c param
  proof -
    from that have a: "callers s' c = Some (I_Entry param)" "singleton s' = Some this"
      "thread_list_lock p' = None" by simp_all
    note I = Instruct_call_steps [OF a(1,2) p'(1) a(3)]
    show ?thesis
      unfolding app I(6) using I(3) I(5) by simp
  qed
  show ?thesis
    using p' l c by (intro exI [of _ p'] conjI allI impI) blast+
qed

subsection \<open>The block guarded by the mutex\<close>

text \<open>
  C9: a worker that wakes with the exit flag clear while no thread holds the mutex, and
  finds the queue empty, takes the mutex, logs the debug line, releases the mutex and
  stands at \<^verbatim>\<open>wait\<close> again; nothing else has changed, and the thread holds the mutex
  exactly between the acquisition and the end of the block. At the acquisition it waits
  while another thread holds the mutex. In the block the empty queue leads to the end
  of the block with nothing taken, the end of the block always releases the mutex, and
  the worker leaves the test of the queue with a descriptor only if the queue was
  non-empty; it is then the front, and the queue has lost exactly that element. While
  the worker is inside the block, under the discipline of the mutex, the mutex is its
  own, and no other worker and no submitting thread can enter a block of the same
  object. Over every run the workers take no more descriptors than the queue held at
  the start and the submitters have pushed.
\<close>

theorem fetch_only_nonempty:
  assumes "threads s t = Some w" and "arg w = Some this" and "heap s this = Some p"
  shows "(pc w = W_IsExit \<and> \<not> is_exit p \<and> instruction_list p = [] \<and> thread_list_lock p = None \<longrightarrow>
            run_threads [t, t, t, t, t] s = set_pc t W_Wait (log_line DBG msg_empty_queue s)
            \<and> heap (run_threads [t, t] s) this = Some (p\<lparr>thread_list_lock := Some (By_Worker t)\<rparr>)
            \<and> heap (run_threads [t, t, t] s) this = Some (p\<lparr>thread_list_lock := Some (By_Worker t)\<rparr>)
            \<and> heap (run_threads [t, t, t, t] s) this = Some p)
       \<and> (pc w = W_Lock \<longrightarrow>
            Worker t s =
              (if thread_list_lock p \<noteq> None then None
               else Some (set_pc t W_Fetch
                      (set_obj this (p\<lparr>thread_list_lock := Some (By_Worker t)\<rparr>) s))))
       \<and> (pc w = W_Fetch \<and> instruction_list p = [] \<longrightarrow>
            Worker t s = Some (set_pc t (W_Unlock None) (log_line DBG msg_empty_queue s)))
       \<and> (\<forall>taken. pc w = W_Unlock taken \<longrightarrow>
            Worker t s =
              Some (set_pc t (case taken of None \<Rightarrow> W_While | Some param \<Rightarrow> W_Call param)
                     (set_obj this (p\<lparr>thread_list_lock := None\<rparr>) s)))
       \<and> (\<forall>s' param. pc w = W_Fetch \<and> Worker t s = Some s'
              \<and> pc_of s' t = Some (W_Unlock (Some param)) \<longrightarrow>
            instruction_list p \<noteq> [] \<and> param = hd (instruction_list p)
            \<and> heap s' this = Some (p\<lparr>instruction_list := tl (instruction_list p)\<rparr>))
       \<and> (lock_inv s \<and> worker_in_block this w \<longrightarrow>
            thread_list_lock p = Some (By_Worker t)
            \<and> (\<forall>u w'. threads s u = Some w' \<and> arg w' = Some this \<and> pc w' = W_Lock \<longrightarrow>
                  Worker u s = None)
            \<and> (\<forall>c param. callers s c = Some (I_Lock this param) \<longrightarrow> Instruct c s = None))
       \<and> (\<forall>as s'. run as s = Some s' \<longrightarrow>
            length (dequeued this as s)
              \<le> length (instruction_list p) + length (enqueued this as s))"
proof -
  have A: "run_threads [t, t, t, t, t] s = set_pc t W_Wait (log_line DBG msg_empty_queue s)
            \<and> heap (run_threads [t, t] s) this = Some (p\<lparr>thread_list_lock := Some (By_Worker t)\<rparr>)
            \<and> heap (run_threads [t, t, t] s) this = Some (p\<lparr>thread_list_lock := Some (By_Worker t)\<rparr>)
            \<and> heap (run_threads [t, t, t, t] s) this = Some p"
    if a: "pc w = W_IsExit \<and> \<not> is_exit p \<and> instruction_list p = [] \<and> thread_list_lock p = None"
  proof -
    let ?q = "p\<lparr>thread_list_lock := Some (By_Worker t)\<rparr>"
    let ?s1 = "set_pc t W_Lock s"
    let ?s2 = "set_pc t W_Fetch (set_obj this ?q ?s1)"
    let ?s3 = "set_pc t (W_Unlock None) (log_line DBG msg_empty_queue ?s2)"
    let ?s4 = "set_pc t W_While (set_obj this (?q\<lparr>thread_list_lock := None\<rparr>) ?s3)"
    let ?s5 = "set_pc t W_Wait ?s4"
    have 1: "Worker t s = Some ?s1"
      using Worker_IsExit [OF assms(1) _ assms(2,3)] a by simp
    have 2: "Worker t ?s1 = Some ?s2"
      using Worker_Lock [of ?s1 t "w\<lparr>pc := W_Lock\<rparr>" this p] assms a by simp
    have 3: "Worker t ?s2 = Some ?s3"
      using Worker_Fetch [of ?s2 t "w\<lparr>pc := W_Fetch\<rparr>" this ?q] assms a by simp
    have 4: "Worker t ?s3 = Some ?s4"
      using Worker_Unlock [of ?s3 t "w\<lparr>pc := W_Unlock None\<rparr>" None this ?q] assms by simp
    have 5: "Worker t ?s4 = Some ?s5"
      using Worker_While [of ?s4 t "w\<lparr>pc := W_While\<rparr>" this "?q\<lparr>thread_list_lock := None\<rparr>"]
        assms a by simp
    have q: "?q\<lparr>thread_list_lock := None\<rparr> = p"
      using a by simp
    have h: "(heap s)(this \<mapsto> p) = heap s"
      using assms(3) by (auto simp: fun_eq_iff)
    have 6: "?s5 = set_pc t W_Wait (log_line DBG msg_empty_queue s)"
      unfolding q using assms(1) h by (simp add: set_pc_def log_line_def set_obj_def)
    have r5: "run_threads [t, t, t, t, t] s = ?s5"
      using 1 2 3 4 5 by simp
    have r2: "run_threads [t, t] s = ?s2"
      using 1 2 by simp
    have r3: "run_threads [t, t, t] s = ?s3"
      using 1 2 3 by simp
    have r4: "run_threads [t, t, t, t] s = ?s4"
      using 1 2 3 4 by simp
    show ?thesis
      unfolding r5 r2 r3 r4 6 [symmetric] by (simp add: q)
  qed
  have L: "Worker t s =
              (if thread_list_lock p \<noteq> None then None
               else Some (set_pc t W_Fetch
                      (set_obj this (p\<lparr>thread_list_lock := Some (By_Worker t)\<rparr>) s)))"
    if "pc w = W_Lock"
    using Worker_Lock [OF assms(1) that assms(2,3)] .
  have F: "Worker t s = Some (case instruction_list p of
         [] \<Rightarrow> set_pc t (W_Unlock None) (log_line DBG msg_empty_queue s)
       | param # rest \<Rightarrow>
           set_pc t (W_Unlock (Some param)) (set_obj this (p\<lparr>instruction_list := rest\<rparr>) s))"
    if "pc w = W_Fetch"
    using Worker_Fetch [OF assms(1) that assms(2,3)] .
  have B: "Worker t s = Some (set_pc t (W_Unlock None) (log_line DBG msg_empty_queue s))"
    if "pc w = W_Fetch \<and> instruction_list p = []"
    using F that by simp
  have U: "Worker t s =
              Some (set_pc t (case taken of None \<Rightarrow> W_While | Some param \<Rightarrow> W_Call param)
                     (set_obj this (p\<lparr>thread_list_lock := None\<rparr>) s))"
    if "pc w = W_Unlock taken" for taken
    using Worker_Unlock [OF assms(1) that assms(2,3)] .
  have C: "instruction_list p \<noteq> [] \<and> param = hd (instruction_list p)
            \<and> heap s' this = Some (p\<lparr>instruction_list := tl (instruction_list p)\<rparr>)"
    if a: "pc w = W_Fetch \<and> Worker t s = Some s' \<and> pc_of s' t = Some (W_Unlock (Some param))"
    for s' param
    using F a assms(1) by (cases "instruction_list p") auto
  have M: "thread_list_lock p = Some (By_Worker t)
            \<and> (\<forall>u w'. threads s u = Some w' \<and> arg w' = Some this \<and> pc w' = W_Lock \<longrightarrow>
                  Worker u s = None)
            \<and> (\<forall>c param. callers s c = Some (I_Lock this param) \<longrightarrow> Instruct c s = None)"
    if a: "lock_inv s \<and> worker_in_block this w"
  proof -
    from a have h: "thread_list_lock p = Some (By_Worker t)"
      using holder_blocks [OF _ assms(3,1)] by simp
    have 1: "Worker u s = None"
      if "threads s u = Some w' \<and> arg w' = Some this \<and> pc w' = W_Lock" for u w'
      using Worker_Lock [of s u w' this p] that assms(3) h by simp
    have 2: "Instruct c s = None" if "callers s c = Some (I_Lock this param)" for c param
      using Instruct_Lock [OF that assms(3)] h by simp
    show ?thesis
      using h 1 2 by blast
  qed
  have P: "length (dequeued this as s)
              \<le> length (instruction_list p) + length (enqueued this as s)"
    if "run as s = Some s'" for as s'
    using run_pops_bounded [OF that assms(3)] .
  show ?thesis
    using A L B U C M P by (intro conjI allI impI) blast+
qed

subsection \<open>What the steps of the workers leave unchanged\<close>

lemma same_members_refl [simp]: "same_members p p"
  by (simp add: same_members_def)

lemma same_members_trans: "same_members p q \<Longrightarrow> same_members q r \<Longrightarrow> same_members p r"
  by (simp add: same_members_def)

lemma same_members_upd [simp]:
  "same_members p (p\<lparr>thpoolman_sem := n\<rparr>)"
  "same_members p (p\<lparr>instruction_list := q\<rparr>)"
  "same_members p (p\<lparr>thread_list_lock := l\<rparr>)"
  by (simp_all add: same_members_def)

lemma rel_option_refl: "(\<And>x. R x x) \<Longrightarrow> rel_option R y y"
  by (cases y) simp_all

lemma rel_option_trans:
  "(\<And>x y z. R x y \<Longrightarrow> R y z \<Longrightarrow> R x z) \<Longrightarrow> rel_option R a b \<Longrightarrow> rel_option R b c
   \<Longrightarrow> rel_option R a c"
  by (cases a; cases b; cases c) auto

lemma workers_only_refl [simp]: "workers_only s s"
  by (simp add: workers_only_def rel_option_refl)

lemma workers_only_trans:
  assumes "workers_only s s'" and "workers_only s' s''"
  shows "workers_only s s''"
proof -
  have "rel_option same_members (heap s a) (heap s'' a)" for a
    using assms same_members_trans
    by (auto simp: workers_only_def intro: rel_option_trans [where b = "heap s' a"])
  moreover have "rel_option (\<lambda>w w'. arg w' = arg w) (threads s t) (threads s'' t)" for t
    using assms
    by (auto simp: workers_only_def intro: rel_option_trans [where b = "threads s' t"])
  ultimately show ?thesis
    using assms by (simp add: workers_only_def)
qed

lemma returned_frame [simp]:
  "returned (log_line lv m s) = returned s"
  "returned (set_obj a p s) = returned s"
  "returned (upd_obj a f s) = returned s"
  "returned (set_ipc c i s) = returned s"
  "returned (s\<lparr>sems := x\<rparr>) = returned s"
  by (simp_all add: returned_def fun_eq_iff)

lemma returned_set_pc:
  "returned (set_pc t c s) t' =
     (if t' = t \<and> threads s t \<noteq> None then (case c of W_Return r \<Rightarrow> True | _ \<Rightarrow> False)
      else returned s t')"
  by (auto simp: returned_def pc_of_def split: option.splits)

lemma workers_only_heap: "workers_only s s' \<Longrightarrow> rel_option same_members (heap s a) (heap s' a)"
  by (simp add: workers_only_def)

lemma workers_only_threads:
  "workers_only s s' \<Longrightarrow> rel_option (\<lambda>w w'. arg w' = arg w) (threads s t) (threads s' t)"
  by (simp add: workers_only_def)

lemma workers_only_returned: "workers_only s s' \<Longrightarrow> returned s t \<Longrightarrow> returned s' t"
  by (simp add: workers_only_def)

lemma workers_only_log [simp]: "workers_only s (log_line lv m s)"
  by (simp add: workers_only_def rel_option_refl)

lemma workers_only_set_pc:
  "\<not> returned s t \<Longrightarrow> workers_only s (set_pc t c s)"
  by (auto simp: workers_only_def rel_option_refl returned_set_pc option.rel_map
      intro!: rel_option_refl)

lemma workers_only_set_obj:
  "heap s a = Some p \<Longrightarrow> same_members p p' \<Longrightarrow> workers_only s (set_obj a p' s)"
  by (auto simp: workers_only_def rel_option_refl intro!: rel_option_refl)

lemma workers_only_sems [simp]: "workers_only s (s\<lparr>sems := x\<rparr>)"
  by (simp add: workers_only_def rel_option_refl)

lemma not_returned_pc:
  "threads s t = Some w \<Longrightarrow> (\<And>r. pc w \<noteq> W_Return r) \<Longrightarrow> \<not> returned s t"
  by (auto simp: returned_def pc_of_def split: wpc.splits)

lemma Worker_workers_only:
  assumes "Worker t s = Some s'"
  shows "workers_only s s'"
  using assms
proof (cases rule: Worker_SomeE)
  case (Entry_null w)
  then have "\<not> returned (log_line ERR msg_worker_invalid s) t"
    by (simp add: not_returned_pc)
  from workers_only_trans [OF workers_only_log workers_only_set_pc [OF this]] Entry_null
  show ?thesis by simp
next
  case (Entry w a)
  then have "\<not> returned (log_line INFO3 msg_worker_start s) t"
    by (simp add: not_returned_pc)
  from workers_only_trans [OF workers_only_log workers_only_set_pc [OF this]] Entry
  show ?thesis by simp
next
  case (Call w param)
  let ?s0 = "if pfunc param (args param) \<noteq> 0 then log_line WARN msg_task_error s else s"
  have 0: "workers_only s ?s0" by simp
  from Call have "\<not> returned ?s0 t"
    by (simp add: not_returned_pc)
  from workers_only_trans [OF 0 workers_only_set_pc [OF this]] Call
  show ?thesis by simp
next
  case (Signal_none w param)
  then show ?thesis by (simp add: workers_only_set_pc not_returned_pc)
next
  case (Signal w param m)
  let ?s0 = "s\<lparr>sems := (sems s)(m := Suc (sems s m))\<rparr>"
  from Signal have "\<not> returned ?s0 t"
    by (simp add: not_returned_pc)
  from workers_only_trans [OF workers_only_sems workers_only_set_pc [OF this]] Signal
  show ?thesis by simp
next
  case (While w a p)
  then show ?thesis by (simp add: workers_only_set_pc not_returned_pc)
next
  case (Wait w a p)
  let ?s0 = "set_obj a (p\<lparr>thpoolman_sem := thpoolman_sem p - 1\<rparr>) s"
  have 0: "workers_only s ?s0"
    using Wait by (simp add: workers_only_set_obj)
  from Wait have "\<not> returned ?s0 t"
    by (simp add: not_returned_pc)
  from workers_only_trans [OF 0 workers_only_set_pc [OF this]] Wait
  show ?thesis by simp
next
  case (IsExit w a p)
  then show ?thesis by (simp add: workers_only_set_pc not_returned_pc)
next
  case (Lock w a p)
  let ?s0 = "set_obj a (p\<lparr>thread_list_lock := Some (By_Worker t)\<rparr>) s"
  have 0: "workers_only s ?s0"
    using Lock by (simp add: workers_only_set_obj)
  from Lock have "\<not> returned ?s0 t"
    by (simp add: not_returned_pc)
  from workers_only_trans [OF 0 workers_only_set_pc [OF this]] Lock
  show ?thesis by simp
next
  case (Fetch_empty w a p)
  then have "\<not> returned (log_line DBG msg_empty_queue s) t"
    by (simp add: not_returned_pc)
  from workers_only_trans [OF workers_only_log workers_only_set_pc [OF this]] Fetch_empty
  show ?thesis by simp
next
  case (Fetch w a p param rest)
  let ?s0 = "set_obj a (p\<lparr>instruction_list := rest\<rparr>) s"
  have 0: "workers_only s ?s0"
    using Fetch by (simp add: workers_only_set_obj)
  from Fetch have "\<not> returned ?s0 t"
    by (simp add: not_returned_pc)
  from workers_only_trans [OF 0 workers_only_set_pc [OF this]] Fetch
  show ?thesis by simp
next
  case (Unlock w a p taken)
  let ?s0 = "set_obj a (p\<lparr>thread_list_lock := None\<rparr>) s"
  have 0: "workers_only s ?s0"
    using Unlock by (simp add: workers_only_set_obj)
  from Unlock have "\<not> returned ?s0 t"
    by (simp add: not_returned_pc)
  from workers_only_trans [OF 0 workers_only_set_pc [OF this]] Unlock
  show ?thesis by simp
qed

lemma run_threads_workers_only: "workers_only s (run_threads ts s)"
proof (induction ts arbitrary: s)
  case Nil
  show ?case by simp
next
  case (Cons t ts)
  show ?case
  proof (cases "Worker t s")
    case None
    with Cons show ?thesis by simp
  next
    case (Some s1)
    from workers_only_trans [OF Worker_workers_only [OF Some] Cons [of s1]] Some
    show ?thesis by simp
  qed
qed

lemma pthread_join_workers_only:
  assumes "pthread_join e t s = Inr (r, s')"
  shows "workers_only s s'" and "r = 0 \<Longrightarrow> returned s' t"
    and "r = 0 \<longleftrightarrow> threads s t \<noteq> None \<and> join_result e t = 0"
proof -
  let ?s1 = "run_threads (join_sched e t) s"
  have s': "s' = ?s1"
    using assms by (auto simp: pthread_join_def Let_def split: option.splits if_splits wpc.splits)
  show "workers_only s s'"
    unfolding s' by (rule run_threads_workers_only)
  show "returned s' t" if "r = 0"
    using assms that
    by (auto simp: pthread_join_def Let_def returned_def pc_of_def ESRCH_def
        split: option.splits if_splits wpc.splits)
  have "threads s t = None \<longleftrightarrow> threads ?s1 t = None"
    using run_threads_workers_only [of s "join_sched e t"]
    by (auto simp: workers_only_def elim!: option.rel_cases dest!: spec [where x = t])
  then show "r = 0 \<longleftrightarrow> threads s t \<noteq> None \<and> join_result e t = 0"
    using assms
    by (auto simp: pthread_join_def Let_def ESRCH_def split: option.splits if_splits wpc.splits)
qed

lemma pthread_join_not_Aborted: "pthread_join e t s \<noteq> Inl (Aborted l)" "pthread_join e t s \<noteq> Inl Segv"
  by (auto simp: pthread_join_def Let_def split: option.splits if_splits wpc.splits)

lemma join_loop_workers_only:
  assumes "join_loop e ts s = Inr s'"
  shows "workers_only s s' \<and> (\<forall>t\<in>set ts. threads s t \<noteq> None \<and> join_result e t = 0 \<longrightarrow> returned s' t)"
  using assms
proof (induction ts arbitrary: s)
  case Nil
  then show ?case by simp
next
  case (Cons t ts)
  then obtain r s1 where j: "pthread_join e t s = Inr (r, s1)"
    by (auto split: sum.splits)
  let ?s2 = "if r \<noteq> 0 then log_line ERR msg_join_failed s1 else log_line DBG msg_join_ok s1"
  from Cons.prems j have l: "join_loop e ts ?s2 = Inr s'"
    by simp
  note J = pthread_join_workers_only [OF j]
  have 12: "workers_only s1 ?s2" by simp
  note IH = Cons.IH [OF l]
  have w: "workers_only s s'"
    using workers_only_trans [OF J(1) workers_only_trans [OF 12 conjunct1 [OF IH]]] .
  have s2: "workers_only s ?s2"
    using workers_only_trans [OF J(1) 12] .
  have t: "returned s' t" if "threads s t \<noteq> None" "join_result e t = 0"
  proof -
    from that J have "returned s1 t" by simp
    then have "returned ?s2 t" by simp
    with IH show ?thesis by (simp add: workers_only_def)
  qed
  have "returned s' u" if "u \<in> set ts" "threads s u \<noteq> None" "join_result e u = 0" for u
  proof -
    from s2 that(2) have "threads ?s2 u \<noteq> None"
      by (auto simp: workers_only_def elim!: option.rel_cases dest!: spec [where x = u])
    with IH that show ?thesis by blast
  qed
  with w t show ?case by auto
qed

lemma join_loop_fault: "join_loop e ts s = Inl f \<Longrightarrow> f = Blocked"
proof (induction ts arbitrary: s)
  case Nil
  then show ?case by simp
next
  case (Cons t ts)
  show ?case
  proof (cases "pthread_join e t s")
    case (Inl g)
    with Cons.prems pthread_join_not_Aborted [of e t s] show ?thesis
      by (cases g) auto
  next
    case (Inr x)
    with Cons show ?thesis by (cases x) (auto split: if_splits)
  qed
qed

subsection \<open>Workers under the exit flag\<close>

lemma post_loop_eq: "post_loop n p = p\<lparr>thpoolman_sem := thpoolman_sem p + n\<rparr>"
  by (induction n arbitrary: p) (simp_all add: sem_post_def)

lemma drain_loop_eq: "drain_loop p = p\<lparr>thpoolman_sem := 0\<rparr>"
proof (induction p rule: drain_loop.induct)
  case (1 p)
  show ?case
  proof (cases "0 < thpoolman_sem p")
    case True
    then have "drain_loop p = drain_loop (p\<lparr>thpoolman_sem := thpoolman_sem p - 1\<rparr>)"
      by (subst drain_loop.simps) (simp add: try_wait_def)
    also have "\<dots> = p\<lparr>thpoolman_sem := 0\<rparr>"
      using "1.IH" [of True "p\<lparr>thpoolman_sem := thpoolman_sem p - 1\<rparr>"] True
      by (simp add: try_wait_def)
    finally show ?thesis .
  next
    case False
    then show ?thesis
      by (subst drain_loop.simps) (simp add: try_wait_def)
  qed
qed

text \<open>
  One scheduled step of a worker whose object has the exit flag set, while no other
  thread holds the mutex.
\<close>

lemma exit_step:
  assumes "threads s t = Some w" and "arg w = Some this" and "heap s this = Some p"
    and "is_exit p" and "pc w = W_Wait \<longrightarrow> 0 < thpoolman_sem p"
    and "\<not> in_block (pc w) \<longrightarrow> thread_list_lock p = None"
  shows "\<exists>w' p'. threads (run_threads [t] s) t = Some w' \<and> arg w' = Some this
           \<and> heap (run_threads [t] s) this = Some p' \<and> is_exit p'
           \<and> pc w' \<noteq> W_Wait \<and> steps_left (pc w') \<le> steps_left (pc w) - 1
           \<and> (\<not> in_block (pc w') \<longrightarrow> thread_list_lock p' = None)
           \<and> thpoolman_sem p \<le> thpoolman_sem p' + 1
           \<and> (pc w \<noteq> W_Wait \<longrightarrow> thpoolman_sem p' = thpoolman_sem p)
           \<and> (\<forall>u. u \<noteq> t \<longrightarrow> threads (run_threads [t] s) u = threads s u)"
proof (cases "pc w")
  case W_Entry
  with assms Worker_Entry [OF assms(1)] show ?thesis by simp
next
  case W_While
  with assms Worker_While [OF assms(1) _ assms(2,3)] show ?thesis by simp
next
  case W_Wait
  with assms Worker_Wait [OF assms(1) _ assms(2,3)] show ?thesis by simp
next
  case W_IsExit
  with assms Worker_IsExit [OF assms(1) _ assms(2,3)] show ?thesis by simp
next
  case W_Lock
  with assms Worker_Lock [OF assms(1) _ assms(2,3)] show ?thesis by simp
next
  case W_Fetch
  with assms Worker_Fetch [OF assms(1) _ assms(2,3)] show ?thesis
    by (cases "instruction_list p") simp_all
next
  case (W_Unlock taken)
  with assms Worker_Unlock [OF assms(1) _ assms(2,3)] show ?thesis
    by (cases taken) simp_all
next
  case (W_Call param)
  with assms Worker_Call [OF assms(1)] show ?thesis by simp
next
  case (W_Signal param)
  with assms Worker_Signal [OF assms(1)] show ?thesis
    by (cases "psem param") simp_all
next
  case (W_Return r)
  with assms Worker_Return [OF assms(1)] show ?thesis by simp
qed

lemma run_threads_append: "run_threads (ts @ us) s = run_threads us (run_threads ts s)"
  by (induction ts arbitrary: s) simp_all

lemma exit_steps:
  assumes "threads s t = Some w" and "arg w = Some this" and "heap s this = Some p"
    and "is_exit p" and "pc w = W_Wait \<longrightarrow> 0 < thpoolman_sem p"
    and "\<not> in_block (pc w) \<longrightarrow> thread_list_lock p = None"
  shows "\<exists>w' p'. threads (run_threads (replicate n t) s) t = Some w' \<and> arg w' = Some this
           \<and> heap (run_threads (replicate n t) s) this = Some p' \<and> is_exit p'
           \<and> (0 < n \<longrightarrow> pc w' \<noteq> W_Wait) \<and> steps_left (pc w') \<le> steps_left (pc w) - n
           \<and> (\<not> in_block (pc w') \<longrightarrow> thread_list_lock p' = None)
           \<and> thpoolman_sem p \<le> thpoolman_sem p' + 1
           \<and> (pc w \<noteq> W_Wait \<longrightarrow> thpoolman_sem p' = thpoolman_sem p)
           \<and> (\<forall>u. u \<noteq> t \<longrightarrow> threads (run_threads (replicate n t) s) u = threads s u)"
proof (induction n)
  case 0
  with assms show ?case by simp
next
  case (Suc n)
  let ?s1 = "run_threads (replicate n t) s"
  from Suc obtain w1 p1 where 1: "threads ?s1 t = Some w1" "arg w1 = Some this"
    "heap ?s1 this = Some p1" "is_exit p1" "0 < n \<longrightarrow> pc w1 \<noteq> W_Wait"
    "steps_left (pc w1) \<le> steps_left (pc w) - n"
    "\<not> in_block (pc w1) \<longrightarrow> thread_list_lock p1 = None"
    "thpoolman_sem p \<le> thpoolman_sem p1 + 1"
    "pc w \<noteq> W_Wait \<longrightarrow> thpoolman_sem p1 = thpoolman_sem p"
    "\<forall>u. u \<noteq> t \<longrightarrow> threads ?s1 u = threads s u"
    by (elim exE conjE) (rule that; assumption)
  have w1: "pc w1 = W_Wait \<longrightarrow> 0 < thpoolman_sem p1 \<and> n = 0 \<and> pc w = W_Wait"
  proof
    assume a: "pc w1 = W_Wait"
    with 1(5) have n: "n = 0" by auto
    with 1(1) assms(1) have "w1 = w" by simp
    with a n assms(5) 1(3) assms(3) show "0 < thpoolman_sem p1 \<and> n = 0 \<and> pc w = W_Wait"
      by simp
  qed
  have n0: "n = 0 \<Longrightarrow> p1 = p"
    using 1(3) assms(3) by simp
  have r: "run_threads (replicate (Suc n) t) s = run_threads [t] ?s1"
    using run_threads_append [of "replicate n t" "[t]" s]
    by (simp add: replicate_append_same)
  from w1 have w1': "pc w1 = W_Wait \<longrightarrow> 0 < thpoolman_sem p1" by simp
  from exit_step [OF 1(1,2,3,4) w1' 1(7)] obtain w' p' where 2:
    "threads (run_threads [t] ?s1) t = Some w'" "arg w' = Some this"
    "heap (run_threads [t] ?s1) this = Some p'" "is_exit p'"
    "pc w' \<noteq> W_Wait" "steps_left (pc w') \<le> steps_left (pc w1) - 1"
    "\<not> in_block (pc w') \<longrightarrow> thread_list_lock p' = None"
    "thpoolman_sem p1 \<le> thpoolman_sem p' + 1"
    "pc w1 \<noteq> W_Wait \<longrightarrow> thpoolman_sem p' = thpoolman_sem p1"
    "\<forall>u. u \<noteq> t \<longrightarrow> threads (run_threads [t] ?s1) u = threads ?s1 u"
    by (elim exE conjE) (rule that; assumption)
  have sem: "thpoolman_sem p \<le> thpoolman_sem p' + 1"
  proof (cases "pc w1 = W_Wait")
    case True
    with w1 n0 2(8) show ?thesis by simp
  next
    case False
    with 2(9) 1(8) show ?thesis by simp
  qed
  have sem2: "pc w \<noteq> W_Wait \<longrightarrow> thpoolman_sem p' = thpoolman_sem p"
    using w1 1(9) 2(9) by auto
  have st: "steps_left (pc w') \<le> steps_left (pc w) - Suc n"
    using 2(6) 1(6) by simp
  have oth: "\<forall>u. u \<noteq> t \<longrightarrow> threads (run_threads [t] ?s1) u = threads s u"
    using 2(10) 1(10) by simp
  show ?case
    unfolding r
    by (intro exI [of _ w'] exI [of _ p'] conjI impI)
       (use 2(1-5,7) st sem sem2 oth in simp_all)
qed

lemma steps_left_0: "steps_left c = 0 \<Longrightarrow> \<exists>r. c = W_Return r"
  by (cases c) simp_all

lemma exit_finishes:
  assumes "threads s t = Some w" and "arg w = Some this" and "heap s this = Some p"
    and "is_exit p" and "0 < thpoolman_sem p" and "thread_list_lock p = None"
  shows "\<exists>w' p' r. threads (run_threads [t, t, t, t, t, t] s) t = Some w' \<and> pc w' = W_Return r
           \<and> heap (run_threads [t, t, t, t, t, t] s) this = Some p' \<and> is_exit p'
           \<and> thread_list_lock p' = None
           \<and> thpoolman_sem p \<le> thpoolman_sem p' + 1
           \<and> (\<forall>u. u \<noteq> t \<longrightarrow> threads (run_threads [t, t, t, t, t, t] s) u = threads s u)"
proof -
  have 6: "[t, t, t, t, t, t] = replicate 6 t"
    by (simp add: numeral_eq_Suc)
  have le: "steps_left (pc w) \<le> 6"
    by (cases "pc w") simp_all
  have a5: "pc w = W_Wait \<longrightarrow> 0 < thpoolman_sem p" and a6: "\<not> in_block (pc w) \<longrightarrow> thread_list_lock p = None"
    using assms(5,6) by simp_all
  from exit_steps [OF assms(1,2,3,4) a5 a6, of 6] obtain w' p' where 1:
    "threads (run_threads (replicate 6 t) s) t = Some w'"
    "heap (run_threads (replicate 6 t) s) this = Some p'" "is_exit p'"
    "steps_left (pc w') \<le> steps_left (pc w) - 6"
    "\<not> in_block (pc w') \<longrightarrow> thread_list_lock p' = None"
    "thpoolman_sem p \<le> thpoolman_sem p' + 1"
    "\<forall>u. u \<noteq> t \<longrightarrow> threads (run_threads (replicate 6 t) s) u = threads s u"
    by (elim exE conjE) (rule that; assumption)
  from 1(4) le have "steps_left (pc w') = 0" by simp
  from steps_left_0 [OF this] obtain r where r: "pc w' = W_Return r" by blast
  with 1(5) have "thread_list_lock p' = None" by simp
  with 1 r show ?thesis
    unfolding 6 by (intro exI [of _ w'] exI [of _ p'] exI [of _ r] conjI) simp_all
qed

lemma join_loop_returns_free:
  assumes "fair e" and "tracked s this ts" and "heap s this = Some p" and "is_exit p"
    and "length ts \<le> thpoolman_sem p" and "thread_list_lock p = None"
  shows "\<exists>s' p'. join_loop e ts s = Inr s' \<and> heap s' this = Some p'
           \<and> thread_list_lock p' = None"
  using assms(2-)
proof (induction ts arbitrary: s p)
  case Nil
  then show ?case by simp
next
  case (Cons t ts)
  from Cons.prems obtain w where w: "threads s t = Some w" "arg w = Some this"
    by (auto simp: tracked_def)
  let ?s1 = "run_threads [t, t, t, t, t, t] s"
  from Cons.prems have "0 < thpoolman_sem p" by simp
  from exit_finishes [OF w Cons.prems(2,3) this Cons.prems(5)] obtain w' p' r where 1:
    "threads ?s1 t = Some w'" "pc w' = W_Return r" "heap ?s1 this = Some p'" "is_exit p'"
    "thread_list_lock p' = None"
    "thpoolman_sem p \<le> thpoolman_sem p' + 1" "\<forall>u. u \<noteq> t \<longrightarrow> threads ?s1 u = threads s u"
    by (elim exE conjE) (rule that; assumption)
  let ?res = "if join_result e t \<noteq> 0 then join_result e t else 0"
  have j: "pthread_join e t s = Inr (?res, ?s1)"
    using assms(1) 1(1,2) by (simp add: pthread_join_def fair_def del: run_threads.simps)
  let ?s2 = "if ?res \<noteq> 0 then log_line ERR msg_join_failed ?s1 else log_line DBG msg_join_ok ?s1"
  have tr: "tracked ?s2 this ts"
    using Cons.prems(1) 1(7) by (auto simp: tracked_def simp del: run_threads.simps)
  have h: "heap ?s2 this = Some p'"
    using 1(3) by (simp del: run_threads.simps)
  have "length ts \<le> thpoolman_sem p'"
    using Cons.prems(4) 1(6) by simp
  from Cons.IH [OF tr h 1(4) this 1(5)] j show ?case
    by (simp del: run_threads.simps)
qed

lemma join_loop_returns:
  assumes "fair e" and "tracked s this ts" and "heap s this = Some p" and "is_exit p"
    and "length ts \<le> thpoolman_sem p" and "thread_list_lock p = None"
  shows "\<exists>s'. join_loop e ts s = Inr s'"
  using join_loop_returns_free [OF assms] by blast

subsection \<open>What the lifecycle functions leave unchanged\<close>

lemma keptI:
  assumes "singleton s' = singleton s" and "next_addr s' = next_addr s"
    and "next_tid s' = next_tid s"
    and "\<And>a. heap s' a = None \<longleftrightarrow> heap s a = None"
    and "\<And>a p p'. heap s a = Some p \<Longrightarrow> heap s' a = Some p' \<Longrightarrow> is_lock_init p' = is_lock_init p"
    and "\<And>t. rel_option (\<lambda>w w'. arg w' = arg w) (threads s t) (threads s' t)"
    and "\<And>t. returned s t \<Longrightarrow> returned s' t"
  shows "kept s s'"
  unfolding kept_def using assms by blast

lemma keptD:
  assumes "kept s s'"
  shows "singleton s' = singleton s" and "next_addr s' = next_addr s"
    and "next_tid s' = next_tid s"
    and "heap s' a = None \<longleftrightarrow> heap s a = None"
    and "heap s a = Some p \<Longrightarrow> heap s' a = Some p' \<Longrightarrow> is_lock_init p' = is_lock_init p"
    and "rel_option (\<lambda>w w'. arg w' = arg w) (threads s t) (threads s' t)"
    and "returned s t \<Longrightarrow> returned s' t"
  using assms unfolding kept_def by blast+

lemma kept_refl [simp]: "kept s s"
  by (rule keptI) (simp_all add: rel_option_refl)

lemma kept_trans:
  assumes "kept s s'" and "kept s' s''"
  shows "kept s s''"
proof (rule keptI)
  show "singleton s'' = singleton s" "next_addr s'' = next_addr s" "next_tid s'' = next_tid s"
    using keptD(1-3) [OF assms(1)] keptD(1-3) [OF assms(2)] by simp_all
  show "heap s'' a = None \<longleftrightarrow> heap s a = None" for a
    using keptD(4) [OF assms(1), of a] keptD(4) [OF assms(2), of a] by simp
  show "is_lock_init p'' = is_lock_init p" if "heap s a = Some p" "heap s'' a = Some p''" for a p p''
  proof -
    from that keptD(4) [OF assms(1), of a] obtain p' where p': "heap s' a = Some p'"
      by (cases "heap s' a") auto
    from keptD(5) [OF assms(1) that(1) p'] keptD(5) [OF assms(2) p' that(2)]
    show ?thesis by simp
  qed
  show "rel_option (\<lambda>w w'. arg w' = arg w) (threads s t) (threads s'' t)" for t
    using keptD(6) [OF assms(1), of t] keptD(6) [OF assms(2), of t]
    by (cases "threads s t"; cases "threads s' t"; cases "threads s'' t") simp_all
  show "returned s'' t" if "returned s t" for t
    using keptD(7) [OF assms(2) keptD(7) [OF assms(1) that]] .
qed

lemma workers_only_kept:
  assumes "workers_only s s'"
  shows "kept s s'"
proof (rule keptI)
  show "singleton s' = singleton s" "next_addr s' = next_addr s" "next_tid s' = next_tid s"
    using assms by (simp_all add: workers_only_def)
  show "heap s' a = None \<longleftrightarrow> heap s a = None" for a
    using workers_only_heap [OF assms, of a] by (cases "heap s a"; cases "heap s' a") simp_all
  show "is_lock_init p' = is_lock_init p" if "heap s a = Some p" "heap s' a = Some p'" for a p p'
    using workers_only_heap [OF assms, of a] that by (simp add: same_members_def)
  show "rel_option (\<lambda>w w'. arg w' = arg w) (threads s t) (threads s' t)" for t
    by (rule workers_only_threads [OF assms])
  show "returned s' t" if "returned s t" for t
    using workers_only_returned [OF assms that] .
qed

lemma kept_log [simp]: "kept s (log_line lv m s)"
  by (rule keptI) (simp_all add: rel_option_refl)

lemma kept_set_obj:
  "heap s a = Some p \<Longrightarrow> is_lock_init p' = is_lock_init p \<Longrightarrow> kept s (set_obj a p' s)"
  by (rule keptI) (simp_all add: rel_option_refl split: if_splits)

lemma kept_upd_obj:
  "(\<And>p. is_lock_init (f p) = is_lock_init p) \<Longrightarrow> kept s (upd_obj a f s)"
  by (rule keptI) (auto simp: rel_option_refl split: if_splits)

lemma kept_threads:
  "kept s s' \<Longrightarrow> threads s t = Some w \<Longrightarrow> \<exists>w'. threads s' t = Some w' \<and> arg w' = arg w"
  using keptD(6) [of s s' t] by (cases "threads s' t") simp_all

lemma kept_threads_None: "kept s s' \<Longrightarrow> threads s' t = None \<longleftrightarrow> threads s t = None"
  using keptD(6) [of s s' t] by (cases "threads s t"; cases "threads s' t") simp_all

lemma StopThreads_empty:
  "heap s this = Some p \<Longrightarrow> thread_list p = [] \<Longrightarrow>
   StopThreads e this s = Inr (True, log_line INFO msg_nothing_to_stop s)"
  by (simp add: StopThreads_def)

lemma StopThreads_nonempty:
  "heap s this = Some p \<Longrightarrow> thread_list p \<noteq> [] \<Longrightarrow>
   StopThreads e this s =
     (case join_loop e (thread_list p)
        (set_obj this (p\<lparr>is_exit := True,
           thpoolman_sem := thpoolman_sem p + length (thread_list p)\<rparr>) s) of
        Inl f \<Rightarrow> Inl f
      | Inr s2 \<Rightarrow> Inr (True, upd_obj this (\<lambda>p'. p'\<lparr>thread_list := [], thpoolman_sem := 0\<rparr>) s2))"
  by (simp add: StopThreads_def post_loop_eq drain_loop_eq SetExitFlag_def cong: sum.case_cong)

lemma StopThreads_Inr:
  assumes "heap s this = Some p" and "StopThreads e this s = Inr (r, s')"
  shows "r" and "kept s s'"
    and "\<exists>p'. heap s' this = Some p' \<and> thread_list p' = []
             \<and> (if thread_list p = [] then p' = p else is_exit p' \<and> thpoolman_sem p' = 0)"
    and "\<And>a. a \<noteq> this \<Longrightarrow> rel_option same_members (heap s a) (heap s' a)"
    and "\<And>t. t \<in> set (thread_list p) \<Longrightarrow> threads s t \<noteq> None \<Longrightarrow> join_result e t = 0
           \<Longrightarrow> returned s' t"
proof -
  have "r \<and> kept s s'
       \<and> (\<exists>p'. heap s' this = Some p' \<and> thread_list p' = []
             \<and> (if thread_list p = [] then p' = p else is_exit p' \<and> thpoolman_sem p' = 0))
       \<and> (\<forall>a. a \<noteq> this \<longrightarrow> rel_option same_members (heap s a) (heap s' a))
       \<and> (\<forall>t. t \<in> set (thread_list p) \<longrightarrow> threads s t \<noteq> None \<longrightarrow> join_result e t = 0
              \<longrightarrow> returned s' t)"
  proof (cases "thread_list p = []")
    case True
    with assms StopThreads_empty [OF assms(1) True, of e] show ?thesis
      by (auto simp: rel_option_refl)
  next
    case False
    let ?p1 = "p\<lparr>is_exit := True, thpoolman_sem := thpoolman_sem p + length (thread_list p)\<rparr>"
    let ?s1 = "set_obj this ?p1 s"
    let ?f = "\<lambda>p'. p'\<lparr>thread_list := [], thpoolman_sem := 0\<rparr>"
    from assms StopThreads_nonempty [OF assms(1) False, of e]
    obtain s2 where s2: "join_loop e (thread_list p) ?s1 = Inr s2" "s' = upd_obj this ?f s2" "r"
      by (auto split: sum.splits)
    note J = join_loop_workers_only [OF s2(1)]
    have k1: "kept s ?s1"
      using assms(1) by (simp add: kept_set_obj)
    have k: "kept s s'"
      unfolding s2(2)
      by (rule kept_trans [OF k1 kept_trans [OF workers_only_kept [OF conjunct1 [OF J]]]])
         (simp add: kept_upd_obj)
    note h = workers_only_heap [OF conjunct1 [OF J]]
    from h [of this] obtain p2 where p2: "heap s2 this = Some p2" "is_exit p2"
      by (auto simp: same_members_def elim!: option.rel_cases)
    have o: "\<exists>p'. heap s' this = Some p' \<and> thread_list p' = [] \<and> is_exit p' \<and> thpoolman_sem p' = 0"
      unfolding s2(2) using p2 by simp
    have other: "rel_option same_members (heap s a) (heap s' a)" if "a \<noteq> this" for a
      using h [of a] that unfolding s2(2) by simp
    have "returned s' t" if "t \<in> set (thread_list p)" "threads s t \<noteq> None" "join_result e t = 0" for t
      using J that unfolding s2(2) by simp
    with s2(3) k o other False show ?thesis by auto
  qed
  then show "r" and "kept s s'"
    and "\<exists>p'. heap s' this = Some p' \<and> thread_list p' = []
             \<and> (if thread_list p = [] then p' = p else is_exit p' \<and> thpoolman_sem p' = 0)"
    and "\<And>a. a \<noteq> this \<Longrightarrow> rel_option same_members (heap s a) (heap s' a)"
    and "\<And>t. t \<in> set (thread_list p) \<Longrightarrow> threads s t \<noteq> None \<Longrightarrow> join_result e t = 0
           \<Longrightarrow> returned s' t"
    by blast+
qed

lemma StopThreads_fault:
  assumes "StopThreads e this s = Inl f"
  shows "(heap s this = None \<and> f = Segv) \<or> (heap s this \<noteq> None \<and> f = Blocked)"
proof (cases "heap s this")
  case None
  with assms show ?thesis by (simp add: StopThreads_def)
next
  case (Some p)
  show ?thesis
  proof (cases "thread_list p = []")
    case True
    with assms StopThreads_empty [OF Some True, of e] show ?thesis by simp
  next
    case False
    with assms StopThreads_nonempty [OF Some False, of e] Some join_loop_fault show ?thesis
      by (auto split: sum.splits)
  qed
qed

lemma StopThreads_returns_free:
  assumes "fair e" and "heap s this = Some p" and "tracked s this (thread_list p)"
    and "thread_list_lock p = None"
  shows "\<exists>s' p'. StopThreads e this s = Inr (True, s') \<and> heap s' this = Some p'
           \<and> thread_list_lock p' = None"
proof (cases "thread_list p = []")
  case True
  with StopThreads_empty [OF assms(2) True, of e] assms(2,4) show ?thesis by simp
next
  case False
  let ?p1 = "p\<lparr>is_exit := True, thpoolman_sem := thpoolman_sem p + length (thread_list p)\<rparr>"
  let ?s1 = "set_obj this ?p1 s"
  have "tracked ?s1 this (thread_list p)"
    using assms(3) by (simp add: tracked_def)
  moreover have "heap ?s1 this = Some ?p1" "is_exit ?p1"
    "length (thread_list p) \<le> thpoolman_sem ?p1" "thread_list_lock ?p1 = None"
    using assms(4) by simp_all
  ultimately obtain s2 p2 where "join_loop e (thread_list p) ?s1 = Inr s2"
    "heap s2 this = Some p2" "thread_list_lock p2 = None"
    using join_loop_returns_free [OF assms(1), of ?s1 this "thread_list p" ?p1] by blast
  with StopThreads_nonempty [OF assms(2) False, of e] show ?thesis by simp
qed

lemma StopThreads_returns:
  assumes "fair e" and "heap s this = Some p" and "tracked s this (thread_list p)"
    and "thread_list_lock p = None"
  shows "\<exists>s'. StopThreads e this s = Inr (True, s')"
  using StopThreads_returns_free [OF assms] by blast

subsection \<open>The creation loop\<close>

lemma spawned_0 [simp]: "spawned this 0 s = s"
proof -
  have "(\<lambda>t. if next_tid s \<le> t \<and> t < next_tid s then Some \<lparr>arg = Some this, pc = W_Entry\<rparr>
             else threads s t) = threads s"
    by (auto simp: fun_eq_iff)
  moreover have "(heap s)(this \<mapsto> a) = heap s" if "heap s this = Some a" for a
    using that by (auto simp: fun_eq_iff)
  ultimately show ?thesis
    by (cases "heap s this") (simp_all add: spawned_def upd_obj_def set_obj_def)
qed

lemma spawned_Suc:
  "spawned this n
     (upd_obj this (\<lambda>p. p\<lparr>thread_list := thread_list p @ [next_tid s]\<rparr>)
        (s\<lparr>threads := (threads s)(next_tid s \<mapsto> \<lparr>arg = Some this, pc = W_Entry\<rparr>),
           next_tid := Suc (next_tid s)\<rparr>))
   = spawned this (Suc n) s"
  by (cases "heap s this")
     (auto simp: spawned_def upd_obj_def set_obj_def fun_eq_iff upt_conv_Cons)

lemma create_loop_all_ok:
  assumes "\<forall>i. cnt \<le> i \<and> i < count \<longrightarrow> create_result e i = 0"
  shows "create_loop e this count cnt s = Inr (True, spawned this (nat (count - cnt)) s)"
  using assms
proof (induction e this count cnt s rule: create_loop.induct)
  case (1 e this count cnt s)
  show ?case
  proof (cases "cnt < count")
    case False
    then show ?thesis by (subst create_loop.simps) simp
  next
    case True
    with "1.prems" have ok: "create_result e cnt = 0" by simp
    let ?s1 = "s\<lparr>threads := (threads s)(next_tid s \<mapsto> \<lparr>arg = Some this, pc = W_Entry\<rparr>),
                  next_tid := Suc (next_tid s)\<rparr>"
    let ?s2 = "upd_obj this (\<lambda>p. p\<lparr>thread_list := thread_list p @ [next_tid s]\<rparr>) ?s1"
    have c: "pthread_create e cnt this s = (0, next_tid s, ?s1)"
      using ok by (simp add: pthread_create_def)
    have "create_loop e this count cnt s = create_loop e this count (cnt + 1) ?s2"
      using True c by (subst create_loop.simps) simp
    also have "\<dots> = Inr (True, spawned this (nat (count - (cnt + 1))) ?s2)"
      using "1.IH" [OF True c [symmetric] refl] ok "1.prems" by simp
    also have "nat (count - cnt) = Suc (nat (count - (cnt + 1)))"
      using True by simp
    ultimately show ?thesis
      by (simp add: spawned_Suc)
  qed
qed

lemma create_loop_fails:
  assumes "cnt \<le> k" and "k < count" and "create_result e k \<noteq> 0"
    and "\<forall>i. cnt \<le> i \<and> i < k \<longrightarrow> create_result e i = 0"
  shows "create_loop e this count cnt s =
           (case StopThreads e this
                   (log_line ERR msg_create_failed (spawned this (nat (k - cnt)) s)) of
              Inl f \<Rightarrow> Inl f
            | Inr (stopped, s'') \<Rightarrow> Inr (False, s''))"
  using assms
proof (induction e this count cnt s rule: create_loop.induct)
  case (1 e this count cnt s)
  from "1.prems" have lt: "cnt < count" by simp
  show ?case
  proof (cases "cnt = k")
    case True
    with "1.prems" have c: "pthread_create e cnt this s = (create_result e cnt, 0, s)"
      by (simp add: pthread_create_def)
    show ?thesis
      using lt c True "1.prems"(3) by (subst create_loop.simps) simp
  next
    case False
    with "1.prems" have ok: "create_result e cnt = 0" and lt': "cnt + 1 \<le> k" by simp_all
    let ?s1 = "s\<lparr>threads := (threads s)(next_tid s \<mapsto> \<lparr>arg = Some this, pc = W_Entry\<rparr>),
                  next_tid := Suc (next_tid s)\<rparr>"
    let ?s2 = "upd_obj this (\<lambda>p. p\<lparr>thread_list := thread_list p @ [next_tid s]\<rparr>) ?s1"
    have c: "pthread_create e cnt this s = (0, next_tid s, ?s1)"
      using ok by (simp add: pthread_create_def)
    have n: "nat (k - cnt) = Suc (nat (k - (cnt + 1)))"
      using lt' by simp
    have "create_loop e this count cnt s = create_loop e this count (cnt + 1) ?s2"
      using lt c by (subst create_loop.simps) simp
    also have "\<dots> = (case StopThreads e this
                   (log_line ERR msg_create_failed (spawned this (nat (k - (cnt + 1))) ?s2)) of
              Inl f \<Rightarrow> Inl f
            | Inr (stopped, s'') \<Rightarrow> Inr (False, s''))"
      using "1.IH" [OF lt c [symmetric] refl _ lt' "1.prems"(2,3)] ok "1.prems"(4) by simp
    finally show ?thesis
      unfolding n spawned_Suc [symmetric] .
  qed
qed

lemma first_failure:
  fixes cnt count :: int
  assumes "\<not> (\<forall>i. cnt \<le> i \<and> i < count \<longrightarrow> f i = (0::int))"
  shows "\<exists>k. cnt \<le> k \<and> k < count \<and> f k \<noteq> 0 \<and> (\<forall>i. cnt \<le> i \<and> i < k \<longrightarrow> f i = 0)"
proof -
  define n where "n = (LEAST n. f (cnt + int n) \<noteq> 0 \<and> cnt + int n < count)"
  from assms obtain i where i: "cnt \<le> i" "i < count" "f i \<noteq> 0" by blast
  then have "f (cnt + int (nat (i - cnt))) \<noteq> 0 \<and> cnt + int (nat (i - cnt)) < count" by simp
  then have P: "f (cnt + int n) \<noteq> 0 \<and> cnt + int n < count"
    unfolding n_def by (rule LeastI)
  have Q: "\<not> (f (cnt + int m) \<noteq> 0 \<and> cnt + int m < count)" if "m < n" for m
    using that unfolding n_def by (rule not_less_Least)
  have "f j = 0" if "cnt \<le> j" "j < cnt + int n" for j
  proof -
    from that have "nat (j - cnt) < n" by simp
    from Q [OF this] that P show ?thesis by simp
  qed
  with P show ?thesis
    by (intro exI [of _ "cnt + int n"]) simp
qed

lemma heap_spawned:
  "heap (spawned this n s) a =
     (if a = this
      then map_option (\<lambda>p. p\<lparr>thread_list := thread_list p @ [next_tid s ..< next_tid s + n]\<rparr>)
             (heap s this)
      else heap s a)"
  by (simp add: spawned_def)

lemma threads_spawned:
  "threads (spawned this n s) t =
     (if next_tid s \<le> t \<and> t < next_tid s + n then Some \<lparr>arg = Some this, pc = W_Entry\<rparr>
      else threads s t)"
  by (simp add: spawned_def)

lemma spawned_proj [simp]:
  "singleton (spawned this n s) = singleton s"
  "next_addr (spawned this n s) = next_addr s"
  "next_tid (spawned this n s) = next_tid s + n"
  "sems (spawned this n s) = sems s"
  "logs (spawned this n s) = logs s"
  by (simp_all add: spawned_def)

lemma tracked_frame [simp]:
  "tracked (log_line lv m s) = tracked s"
  "tracked (set_obj a p s) = tracked s"
  "tracked (upd_obj a f s) = tracked s"
  by (simp_all add: tracked_def fun_eq_iff)

lemma tracked_spawned: "tracked (spawned this n s) this [next_tid s ..< next_tid s + n]"
  by (simp add: tracked_def threads_spawned)

lemma StartThreads_under_1:
  "count < 1 \<Longrightarrow> StartThreads e this count s = Inr (False, log_line ERR msg_count_under_1 s)"
  by (simp add: StartThreads_def)

lemma StartThreads_from_1:
  "1 \<le> count \<Longrightarrow>
   StartThreads e this count s =
     (case StopThreads e this s of
        Inl f \<Rightarrow> Inl f
      | Inr (stopped, s1) \<Rightarrow> create_loop e this count 0 (upd_obj this (SetExitFlag False) s1))"
proof -
  assume c: "1 \<le> count"
  show ?thesis
  proof (cases "StopThreads e this s")
    case (Inl f)
    with c show ?thesis by (simp add: StartThreads_def)
  next
    case (Inr x)
    obtain stopped s1 where x: "x = (stopped, s1)" by (cases x)
    have "stopped"
    proof (cases "heap s this")
      case None
      with Inr show ?thesis by (simp add: StopThreads_def)
    next
      case (Some p)
      from StopThreads_Inr(1) [OF Some Inr [unfolded x]] show ?thesis .
    qed
    with c Inr x show ?thesis by (simp add: StartThreads_def)
  qed
qed

lemma StartThreads_restart:
  assumes "heap s this = Some p" and "1 \<le> count" and "StopThreads e this s = Inr (stopped, s1)"
  shows "\<exists>p1. heap s1 this = Some p1 \<and> thread_list p1 = []
          \<and> (thread_list p \<noteq> [] \<or> thpoolman_sem p = 0 \<longrightarrow> thpoolman_sem p1 = 0)
          \<and> ((\<forall>i. 0 \<le> i \<and> i < count \<longrightarrow> create_result e i = 0) \<longrightarrow>
                (\<exists>s'. StartThreads e this count s = Inr (True, s')
                   \<and> heap s' this = Some (p1\<lparr>is_exit := False,
                        thread_list := [next_tid s1 ..< next_tid s1 + nat count]\<rparr>)
                   \<and> (\<forall>t\<in>{next_tid s1 ..< next_tid s1 + nat count}.
                         threads s' t = Some \<lparr>arg = Some this, pc = W_Entry\<rparr>)))
          \<and> (\<forall>k. 0 \<le> k \<and> k < count \<and> create_result e k \<noteq> 0
                  \<and> (\<forall>i. 0 \<le> i \<and> i < k \<longrightarrow> create_result e i = 0) \<longrightarrow>
                (case StartThreads e this count s of
                   Inl f \<Rightarrow> f = Blocked
                 | Inr (started, s') \<Rightarrow>
                     \<not> started \<and> (\<exists>p'. heap s' this = Some p' \<and> thread_list p' = [])
                     \<and> (\<forall>t\<in>{next_tid s1 ..< next_tid s1 + nat k}.
                           join_result e t = 0 \<longrightarrow> returned s' t))
                \<and> (fair e \<and> thread_list_lock p1 = None \<longrightarrow>
                      (\<exists>s'. StartThreads e this count s = Inr (False, s'))))"
proof -
  from StopThreads_Inr(3) [OF assms(1,3)] obtain p1 where p1: "heap s1 this = Some p1"
    "thread_list p1 = []" "if thread_list p = [] then p1 = p else is_exit p1 \<and> thpoolman_sem p1 = 0"
    by blast
  let ?s2 = "upd_obj this (SetExitFlag False) s1"
  have S: "StartThreads e this count s = create_loop e this count 0 ?s2"
    using StartThreads_from_1 [OF assms(2), of e this s] assms(3) by simp
  have h2: "heap ?s2 this = Some (p1\<lparr>is_exit := False\<rparr>)"
    using p1(1) by (simp add: SetExitFlag_def)
  have sem: "thread_list p \<noteq> [] \<or> thpoolman_sem p = 0 \<longrightarrow> thpoolman_sem p1 = 0"
    using p1(3) by (auto split: if_splits)
  have ok: "\<exists>s'. StartThreads e this count s = Inr (True, s')
       \<and> heap s' this = Some (p1\<lparr>is_exit := False,
             thread_list := [next_tid s1 ..< next_tid s1 + nat count]\<rparr>)
       \<and> (\<forall>t\<in>{next_tid s1 ..< next_tid s1 + nat count}.
              threads s' t = Some \<lparr>arg = Some this, pc = W_Entry\<rparr>)"
    if "\<forall>i. 0 \<le> i \<and> i < count \<longrightarrow> create_result e i = 0"
  proof -
    let ?s' = "spawned this (nat count) ?s2"
    have 1: "StartThreads e this count s = Inr (True, ?s')"
      using create_loop_all_ok [OF that, of this ?s2] S by simp
    have 2: "heap ?s' this = Some (p1\<lparr>is_exit := False,
             thread_list := [next_tid s1 ..< next_tid s1 + nat count]\<rparr>)"
      unfolding heap_spawned h2 using p1(2) by simp
    have 3: "\<forall>t\<in>{next_tid s1 ..< next_tid s1 + nat count}.
              threads ?s' t = Some \<lparr>arg = Some this, pc = W_Entry\<rparr>"
      by (simp add: threads_spawned)
    show ?thesis
      by (intro exI [of _ ?s'] conjI) (rule 1 2 3)+
  qed
  have bad: "(case StartThreads e this count s of
                   Inl f \<Rightarrow> f = Blocked
                 | Inr (started, s') \<Rightarrow>
                     \<not> started \<and> (\<exists>p'. heap s' this = Some p' \<and> thread_list p' = [])
                     \<and> (\<forall>t\<in>{next_tid s1 ..< next_tid s1 + nat k}.
                           join_result e t = 0 \<longrightarrow> returned s' t))
                \<and> (fair e \<and> thread_list_lock p1 = None \<longrightarrow>
                      (\<exists>s'. StartThreads e this count s = Inr (False, s')))"
    if k: "0 \<le> k \<and> k < count \<and> create_result e k \<noteq> 0
                  \<and> (\<forall>i. 0 \<le> i \<and> i < k \<longrightarrow> create_result e i = 0)" for k
  proof -
    let ?s3 = "log_line ERR msg_create_failed (spawned this (nat (k - 0)) ?s2)"
    let ?p3 = "p1\<lparr>is_exit := False, thread_list := [next_tid s1 ..< next_tid s1 + nat k]\<rparr>"
    have C: "StartThreads e this count s =
        (case StopThreads e this ?s3 of Inl f \<Rightarrow> Inl f | Inr (stopped, s'') \<Rightarrow> Inr (False, s''))"
      unfolding S using k by (intro create_loop_fails) simp_all
    have "heap (spawned this (nat (k - 0)) ?s2) this = Some ?p3"
      unfolding heap_spawned h2 using p1(2) by simp
    then have h3: "heap ?s3 this = Some ?p3"
      by simp
    have t3: "threads ?s3 t \<noteq> None" if "t \<in> {next_tid s1 ..< next_tid s1 + nat k}" for t
      using that by (simp add: threads_spawned)
    have 1: "case StartThreads e this count s of
                   Inl f \<Rightarrow> f = Blocked
                 | Inr (started, s') \<Rightarrow>
                     \<not> started \<and> (\<exists>p'. heap s' this = Some p' \<and> thread_list p' = [])
                     \<and> (\<forall>t\<in>{next_tid s1 ..< next_tid s1 + nat k}.
                           join_result e t = 0 \<longrightarrow> returned s' t)"
    proof (cases "StopThreads e this ?s3")
      case (Inl f)
      with StopThreads_fault [OF Inl] h3 C show ?thesis by simp
    next
      case (Inr x)
      obtain r s' where x: "x = (r, s')" by (cases x)
      note R = StopThreads_Inr [OF h3 Inr [unfolded x]]
      from R(3) have a: "\<exists>p'. heap s' this = Some p' \<and> thread_list p' = []"
        by blast
      have b: "returned s' t"
        if "t \<in> {next_tid s1 ..< next_tid s1 + nat k}" "join_result e t = 0" for t
        using R(5) [of t] t3 [OF that(1)] that by simp
      from a b Inr x C show ?thesis
        by simp
    qed
    have 2: "\<exists>s'. StartThreads e this count s = Inr (False, s')"
      if "fair e \<and> thread_list_lock p1 = None"
    proof -
      have tr: "tracked ?s3 this (thread_list ?p3)"
        using tracked_spawned [of this "nat k" ?s2] by simp
      have l: "thread_list_lock ?p3 = None" and f: "fair e"
        using that by simp_all
      from StopThreads_returns [OF f h3 tr l] C show ?thesis by auto
    qed
    show ?thesis
    proof (rule conjI)
      show "case StartThreads e this count s of
                   Inl f \<Rightarrow> f = Blocked
                 | Inr (started, s') \<Rightarrow>
                     \<not> started \<and> (\<exists>p'. heap s' this = Some p' \<and> thread_list p' = [])
                     \<and> (\<forall>t\<in>{next_tid s1 ..< next_tid s1 + nat k}.
                           join_result e t = 0 \<longrightarrow> returned s' t)"
        by (rule 1)
      show "fair e \<and> thread_list_lock p1 = None \<longrightarrow>
          (\<exists>s'. StartThreads e this count s = Inr (False, s'))"
        by (rule impI) (rule 2)
    qed
  qed
  show ?thesis
  proof (intro exI [of _ p1] conjI)
    show "heap s1 this = Some p1" by (rule p1(1))
    show "thread_list p1 = []" by (rule p1(2))
    show "thread_list p \<noteq> [] \<or> thpoolman_sem p = 0 \<longrightarrow> thpoolman_sem p1 = 0" by (rule sem)
    show "(\<forall>i. 0 \<le> i \<and> i < count \<longrightarrow> create_result e i = 0) \<longrightarrow>
                (\<exists>s'. StartThreads e this count s = Inr (True, s')
                   \<and> heap s' this = Some (p1\<lparr>is_exit := False,
                        thread_list := [next_tid s1 ..< next_tid s1 + nat count]\<rparr>)
                   \<and> (\<forall>t\<in>{next_tid s1 ..< next_tid s1 + nat count}.
                         threads s' t = Some \<lparr>arg = Some this, pc = W_Entry\<rparr>))"
      by (rule impI) (rule ok)
    show "\<forall>k. 0 \<le> k \<and> k < count \<and> create_result e k \<noteq> 0
                  \<and> (\<forall>i. 0 \<le> i \<and> i < k \<longrightarrow> create_result e i = 0) \<longrightarrow>
                (case StartThreads e this count s of
                   Inl f \<Rightarrow> f = Blocked
                 | Inr (started, s') \<Rightarrow>
                     \<not> started \<and> (\<exists>p'. heap s' this = Some p' \<and> thread_list p' = [])
                     \<and> (\<forall>t\<in>{next_tid s1 ..< next_tid s1 + nat k}.
                           join_result e t = 0 \<longrightarrow> returned s' t))
                \<and> (fair e \<and> thread_list_lock p1 = None \<longrightarrow>
                      (\<exists>s'. StartThreads e this count s = Inr (False, s')))"
      by (intro allI impI) (rule bad)
  qed
qed

subsection \<open>Construction and destruction\<close>

lemma new_ThreadPoolMan_aborts:
  "count < 1 \<Longrightarrow> new_ThreadPoolMan e count s = Inl (Aborted (CRIT, msg_ctor_count))"
  "1 \<le> count \<Longrightarrow> singleton s \<noteq> None \<Longrightarrow>
     new_ThreadPoolMan e count s = Inl (Aborted (CRIT, msg_ctor_singleton))"
  "1 \<le> count \<Longrightarrow> singleton s = None \<Longrightarrow> mutex_init_result e \<noteq> 0 \<Longrightarrow>
     new_ThreadPoolMan e count s = Inl (Aborted (CRIT, msg_ctor_lock))"
  by (simp_all add: new_ThreadPoolMan_def Let_def)

lemma new_ThreadPoolMan_starts:
  assumes "1 \<le> count" and "singleton s = None" and "mutex_init_result e = 0"
  shows "new_ThreadPoolMan e count s =
     (case create_loop e (next_addr s) count 0
             (log_line INFO msg_nothing_to_stop
                (s\<lparr>heap := (heap s)(next_addr s \<mapsto> fresh_obj\<lparr>is_lock_init := True\<rparr>),
                   next_addr := Suc (next_addr s)\<rparr>)) of
        Inl f \<Rightarrow> Inl f
      | Inr (started, s1) \<Rightarrow>
          if \<not> started then Inl (Aborted (ERR, msg_ctor_start)) else Inr (next_addr s, s1))"
proof -
  let ?a = "next_addr s"
  let ?s0 = "s\<lparr>heap := (heap s)(?a \<mapsto> fresh_obj), next_addr := Suc ?a\<rparr>"
  let ?s1 = "upd_obj ?a (\<lambda>p. p\<lparr>is_lock_init := True\<rparr>) ?s0"
  let ?s1' = "s\<lparr>heap := (heap s)(?a \<mapsto> fresh_obj\<lparr>is_lock_init := True\<rparr>),
                next_addr := Suc ?a\<rparr>"
  have s1: "?s1 = ?s1'"
    by (simp add: upd_obj_def set_obj_def)
  have h: "heap ?s1' ?a = Some (fresh_obj\<lparr>is_lock_init := True\<rparr>)"
    by simp
  have st: "StopThreads e ?a ?s1' = Inr (True, log_line INFO msg_nothing_to_stop ?s1')"
    by (rule StopThreads_empty [OF h]) (simp add: fresh_obj_def)
  have u: "upd_obj ?a (SetExitFlag False) (log_line INFO msg_nothing_to_stop ?s1')
         = log_line INFO msg_nothing_to_stop ?s1'"
    by (simp add: upd_obj_def set_obj_def log_line_def SetExitFlag_def fresh_obj_def)
  have "StartThreads e ?a count ?s1'
      = create_loop e ?a count 0 (log_line INFO msg_nothing_to_stop ?s1')"
    using StartThreads_from_1 [OF assms(1), of e ?a ?s1'] st u by simp
  then have "StartThreads e ?a count ?s1
      = create_loop e ?a count 0 (log_line INFO msg_nothing_to_stop ?s1')"
    unfolding s1 .
  then show ?thesis
    using assms unfolding new_ThreadPoolMan_def Let_def fresh_obj_def
    by simp
qed

lemma heap_constructed:
  "heap (constructed count s) a =
     (if a = next_addr s
      then Some (fresh_obj\<lparr>is_lock_init := True,
             thread_list := [next_tid s ..< next_tid s + nat count]\<rparr>)
      else heap s a)"
  by (simp add: constructed_def heap_spawned fresh_obj_def)

lemma threads_constructed:
  "threads (constructed count s) t =
     (if next_tid s \<le> t \<and> t < next_tid s + nat count
      then Some \<lparr>arg = Some (next_addr s), pc = W_Entry\<rparr> else threads s t)"
  by (simp add: constructed_def threads_spawned)

lemma constructed_proj [simp]:
  "singleton (constructed count s) = singleton s"
  "next_addr (constructed count s) = Suc (next_addr s)"
  "next_tid (constructed count s) = next_tid s + nat count"
  "sems (constructed count s) = sems s"
  "logs (constructed count s) = logs s @ [(INFO, msg_nothing_to_stop)]"
  by (simp_all add: constructed_def)

lemma new_ThreadPoolMan_ok:
  assumes "1 \<le> count" and "singleton s = None" and "mutex_init_result e = 0"
    and "all_created e count"
  shows "new_ThreadPoolMan e count s = Inr (next_addr s, constructed count s)"
  using new_ThreadPoolMan_starts [OF assms(1-3)] assms(4)
  by (simp add: create_loop_all_ok all_created_def constructed_def)

lemma new_ThreadPoolMan_create_fails:
  assumes "1 \<le> count" and "singleton s = None" and "mutex_init_result e = 0"
    and "\<not> all_created e count"
  shows "new_ThreadPoolMan e count s = Inl Blocked
       \<or> new_ThreadPoolMan e count s = Inl (Aborted (ERR, msg_ctor_start))"
    and "fair e \<Longrightarrow> new_ThreadPoolMan e count s = Inl (Aborted (ERR, msg_ctor_start))"
proof -
  let ?a = "next_addr s"
  let ?s1 = "log_line INFO msg_nothing_to_stop
     (s\<lparr>heap := (heap s)(?a \<mapsto> fresh_obj\<lparr>is_lock_init := True\<rparr>), next_addr := Suc ?a\<rparr>)"
  from assms(4) first_failure [of 0 count "create_result e"]
  obtain k where k: "0 \<le> k" "k < count" "create_result e k \<noteq> 0"
    "\<forall>i. 0 \<le> i \<and> i < k \<longrightarrow> create_result e i = 0"
    unfolding all_created_def by blast
  let ?s3 = "log_line ERR msg_create_failed (spawned ?a (nat (k - 0)) ?s1)"
  let ?p3 = "fresh_obj\<lparr>is_lock_init := True, thread_list := [next_tid s ..< next_tid s + nat k]\<rparr>"
  have C: "create_loop e ?a count 0 ?s1 =
        (case StopThreads e ?a ?s3 of Inl f \<Rightarrow> Inl f | Inr (stopped, s'') \<Rightarrow> Inr (False, s''))"
    using k by (intro create_loop_fails) simp_all
  have h3: "heap ?s3 ?a = Some ?p3"
    by (simp add: heap_spawned fresh_obj_def)
  note N = new_ThreadPoolMan_starts [OF assms(1-3)]
  show "new_ThreadPoolMan e count s = Inl Blocked
       \<or> new_ThreadPoolMan e count s = Inl (Aborted (ERR, msg_ctor_start))"
  proof (cases "StopThreads e ?a ?s3")
    case (Inl f)
    with StopThreads_fault [OF Inl] h3 C N show ?thesis by simp
  next
    case (Inr x)
    with C N show ?thesis by (cases x) simp
  qed
  show "new_ThreadPoolMan e count s = Inl (Aborted (ERR, msg_ctor_start))" if "fair e"
  proof -
    have tr: "tracked ?s3 ?a (thread_list ?p3)"
      using tracked_spawned [of ?a "nat k" ?s1] by simp
    have l: "thread_list_lock ?p3 = None"
      by (simp add: fresh_obj_def)
    from StopThreads_returns [OF that h3 tr l] C N show ?thesis by auto
  qed
qed

lemma new_ThreadPoolMan_Inr:
  assumes "new_ThreadPoolMan e count s = Inr (a, s')"
  shows "1 \<le> count \<and> singleton s = None \<and> mutex_init_result e = 0 \<and> all_created e count
       \<and> a = next_addr s \<and> s' = constructed count s"
proof -
  have 1: "1 \<le> count"
    using assms new_ThreadPoolMan_aborts(1) [of count e s] by (cases "count < 1") simp_all
  have 2: "singleton s = None"
    using assms new_ThreadPoolMan_aborts(2) [OF 1, of s e] by (cases "singleton s") simp_all
  have 3: "mutex_init_result e = 0"
    using assms new_ThreadPoolMan_aborts(3) [OF 1 2, of e] by (cases "mutex_init_result e = 0") simp_all
  have 4: "all_created e count"
    using assms new_ThreadPoolMan_create_fails(1) [OF 1 2 3] by (cases "all_created e count") auto
  from new_ThreadPoolMan_ok [OF 1 2 3 4] assms 1 2 3 4 show ?thesis by simp
qed

lemma Destroy_None: "singleton s = None \<Longrightarrow> Destroy e s = Inr s"
  by (simp add: Destroy_def)

lemma Destroy_Some:
  assumes "singleton s = Some a" and "heap s a = Some p"
  shows "Destroy e s =
     (case StopThreads e a s of
        Inl f \<Rightarrow> Inl f
      | Inr (stopped, s1) \<Rightarrow>
          if is_lock_init p \<and> mutex_destroy_result e \<noteq> 0
          then Inl (Aborted (CRIT, msg_dtor_lock))
          else Inr (s1\<lparr>heap := (heap s1)(a := None), singleton := None\<rparr>))"
proof (cases "StopThreads e a s")
  case (Inl f)
  with assms show ?thesis
    by (simp add: Destroy_def delete_ThreadPoolMan_def)
next
  case (Inr x)
  obtain r s1 where x: "x = (r, s1)" by (cases x)
  note k = StopThreads_Inr(2) [OF assms(2) Inr [unfolded x]]
  from keptD(4) [OF k, of a] assms(2) obtain p1 where p1: "heap s1 a = Some p1"
    by (cases "heap s1 a") simp_all
  from keptD(5) [OF k assms(2) p1] have l: "is_lock_init p1 = is_lock_init p" .
  show ?thesis
    unfolding Destroy_def delete_ThreadPoolMan_def using assms(1) Inr x p1 l by simp
qed

lemma Destroy_Inr:
  assumes "Destroy e s = Inr s'" and "singleton s = Some a"
  shows "\<exists>p r s1. heap s a = Some p \<and> StopThreads e a s = Inr (r, s1)
           \<and> (is_lock_init p \<longrightarrow> mutex_destroy_result e = 0)
           \<and> s' = s1\<lparr>heap := (heap s1)(a := None), singleton := None\<rparr>"
proof (cases "heap s a")
  case None
  with assms show ?thesis
    by (simp add: Destroy_def delete_ThreadPoolMan_def StopThreads_def)
next
  case (Some p)
  note D = Destroy_Some [OF assms(2) Some, of e]
  show ?thesis
  proof (cases "StopThreads e a s")
    case (Inl f)
    with D assms(1) show ?thesis by simp
  next
    case (Inr x)
    obtain r s1 where x: "x = (r, s1)" by (cases x)
    let ?s2 = "s1\<lparr>heap := (heap s1)(a := None), singleton := None\<rparr>"
    from D assms(1) Inr x
    have E: "(if is_lock_init p \<and> mutex_destroy_result e \<noteq> 0
              then Inl (Aborted (CRIT, msg_dtor_lock)) else Inr ?s2) = Inr s'"
      by simp
    have c: "is_lock_init p \<longrightarrow> mutex_destroy_result e = 0"
      using E by (cases "is_lock_init p \<and> mutex_destroy_result e \<noteq> 0") simp_all
    have s': "s' = ?s2"
      using E by (cases "is_lock_init p \<and> mutex_destroy_result e \<noteq> 0") simp_all
    show ?thesis
      by (intro exI [of _ p] exI [of _ r] exI [of _ s1] conjI)
         (use Some Inr x c s' in simp_all)
  qed
qed

lemma Destroy_singleton:
  assumes "Destroy e s = Inr s'"
  shows "singleton s' = None"
proof (cases "singleton s")
  case None
  with assms Destroy_None [OF None, of e] show ?thesis by simp
next
  case (Some a)
  from Destroy_Inr [OF assms Some] obtain s1
    where "s' = s1\<lparr>heap := (heap s1)(a := None), singleton := None\<rparr>" by blast
  then show ?thesis by simp
qed

lemma Initialize_eq:
  "Initialize e count s =
     (case (if singleton s \<noteq> None then Destroy e (log_line WARN msg_recreate s) else Inr s) of
        Inl f \<Rightarrow> Inl f
      | Inr s1 \<Rightarrow>
          (case new_ThreadPoolMan e count s1 of
             Inl f \<Rightarrow> Inl f
           | Inr (a, s2) \<Rightarrow> Inr (True, s2\<lparr>singleton := Some a\<rparr>)))"
  by (simp add: Initialize_def)

lemma Initialize_no_singleton:
  "singleton s = None \<Longrightarrow>
   Initialize e count s =
     (case new_ThreadPoolMan e count s of
        Inl f \<Rightarrow> Inl f
      | Inr (a, s2) \<Rightarrow> Inr (True, s2\<lparr>singleton := Some a\<rparr>))"
  by (simp add: Initialize_def)

lemma Initialize_is_Destroy_then_Initialize:
  "Initialize e count s =
     Destroy_then_Initialize e count
       (if singleton s \<noteq> None then log_line WARN msg_recreate s else s)"
proof (cases "singleton s")
  case None
  then show ?thesis
    by (simp add: Destroy_then_Initialize_def Destroy_None)
next
  case (Some a)
  show ?thesis
  proof (cases "Destroy e (log_line WARN msg_recreate s)")
    case (Inl f)
    with Some show ?thesis
      by (simp add: Destroy_then_Initialize_def Initialize_eq)
  next
    case (Inr s1)
    from Destroy_singleton [OF Inr] Some Inr show ?thesis
      by (simp add: Destroy_then_Initialize_def Initialize_eq [of e count s]
          Initialize_no_singleton)
  qed
qed

subsection \<open>States with one live object\<close>

lemma well_formedD:
  assumes "well_formed s"
  shows "heap s a \<noteq> None \<longleftrightarrow> singleton s = Some a"
    and "singleton s = Some a \<Longrightarrow> a < next_addr s"
    and "threads s t = Some w \<Longrightarrow> arg w = Some a \<Longrightarrow> a < next_addr s"
    and "threads s t \<noteq> None \<Longrightarrow> t < next_tid s"
  using assms unfolding well_formed_def by blast+

lemma well_formedI:
  assumes "\<And>a. heap s a \<noteq> None \<longleftrightarrow> singleton s = Some a"
    and "\<And>a. singleton s = Some a \<Longrightarrow> a < next_addr s"
    and "\<And>t w a. threads s t = Some w \<Longrightarrow> arg w = Some a \<Longrightarrow> a < next_addr s"
    and "\<And>t. threads s t \<noteq> None \<Longrightarrow> t < next_tid s"
  shows "well_formed s"
  unfolding well_formed_def using assms by blast

lemma Worker_other_object:
  assumes "Worker t s = Some s'" and "threads s t = Some w" and "arg w \<noteq> Some b"
  shows "heap s' b = heap s b"
  using assms(1)
  by (rule Worker_SomeE) (use assms(2,3) in auto)

lemma took_other_object:
  "threads s t = Some w \<Longrightarrow> arg w \<noteq> Some b \<Longrightarrow> took b t s s' = []"
  by (simp add: took_def split: option.splits)

lemma step_args:
  assumes "step a s = Some s'"
  shows "rel_option (\<lambda>w w'. arg w' = arg w) (threads s t) (threads s' t)"
proof (cases a)
  case (Act_Worker u)
  with assms have "Worker u s = Some s'" by simp
  from workers_only_threads [OF Worker_workers_only [OF this]] show ?thesis .
next
  case (Act_Instruct c)
  with assms have "threads s' = threads s"
    by (simp add: Instruct_threads)
  then show ?thesis by (simp add: rel_option_refl)
next
  case (Act_Call c param)
  with assms have "threads s' = threads s"
    by (auto elim: step_Call_SomeE)
  then show ?thesis by (simp add: rel_option_refl)
qed

lemma step_singleton:
  assumes "step a s = Some s'"
  shows "singleton s' = singleton s"
proof (cases a)
  case (Act_Worker u)
  with assms have "Worker u s = Some s'" by simp
  from Worker_workers_only [OF this] show ?thesis by (simp add: workers_only_def)
next
  case (Act_Instruct c)
  with assms have "Instruct c s = Some s'" by simp
  then show ?thesis by (rule Instruct_SomeE) simp_all
next
  case (Act_Call c param)
  with assms show ?thesis by (auto elim: step_Call_SomeE)
qed

lemma run_singleton: "run as s = Some s' \<Longrightarrow> singleton s' = singleton s"
proof (induction as arbitrary: s)
  case Nil
  then show ?case by simp
next
  case (Cons a as)
  then obtain s1 where s1: "step a s = Some s1" "run as s1 = Some s'"
    by (auto split: option.splits)
  from step_singleton [OF s1(1)] Cons.IH [OF s1(2)] show ?case by simp
qed

lemma run_args:
  "run as s = Some s' \<Longrightarrow> rel_option (\<lambda>w w'. arg w' = arg w) (threads s t) (threads s' t)"
proof (induction as arbitrary: s)
  case Nil
  then show ?case by (simp add: rel_option_refl)
next
  case (Cons a as)
  then obtain s1 where s1: "step a s = Some s1" "run as s1 = Some s'"
    by (auto split: option.splits)
  from step_args [OF s1(1), of t] Cons.IH [OF s1(2)] show ?case
    by (cases "threads s t"; cases "threads s1 t"; cases "threads s' t") simp_all
qed

text \<open>What \<open>Destroy\<close> (or nothing, when there is no singleton) leaves of a well-formed state.\<close>

lemma Destroy_well_formed:
  assumes "well_formed s" and "Destroy e (log_line lv m s) = Inr s1"
  shows "singleton s1 = None" and "\<And>a. heap s1 a = None"
    and "next_addr s1 = next_addr s" and "next_tid s1 = next_tid s"
    and "\<And>t. rel_option (\<lambda>w w'. arg w' = arg w) (threads s t) (threads s1 t)"
    and "\<And>t. returned s t \<Longrightarrow> returned s1 t"
    and "\<And>a p t. singleton s = Some a \<Longrightarrow> heap s a = Some p \<Longrightarrow> t \<in> set (thread_list p)
           \<Longrightarrow> threads s t \<noteq> None \<Longrightarrow> join_result e t = 0 \<Longrightarrow> returned s1 t"
proof -
  let ?s0 = "log_line lv m s"
  show "singleton s1 = None"
    using Destroy_singleton [OF assms(2)] .
  have "(\<forall>a. heap s1 a = None) \<and> next_addr s1 = next_addr s \<and> next_tid s1 = next_tid s
      \<and> (\<forall>t. rel_option (\<lambda>w w'. arg w' = arg w) (threads s t) (threads s1 t))
      \<and> (\<forall>t. returned s t \<longrightarrow> returned s1 t)
      \<and> (\<forall>a p t. singleton s = Some a \<longrightarrow> heap s a = Some p \<longrightarrow> t \<in> set (thread_list p)
           \<longrightarrow> threads s t \<noteq> None \<longrightarrow> join_result e t = 0 \<longrightarrow> returned s1 t)"
  proof (cases "singleton s")
    case None
    then have "s1 = ?s0"
      using assms(2) Destroy_None [of ?s0 e] by simp
    moreover have "heap s a = None" for a
      using well_formedD(1) [OF assms(1), of a] None by simp
    ultimately show ?thesis
      using None by (simp add: rel_option_refl)
  next
    case (Some a)
    then have sg: "singleton ?s0 = Some a" by simp
    from Destroy_Inr [OF assms(2) sg] obtain p r st where d: "heap ?s0 a = Some p"
      "StopThreads e a ?s0 = Inr (r, st)"
      "s1 = st\<lparr>heap := (heap st)(a := None), singleton := None\<rparr>"
      by blast
    note k = kept_trans [OF kept_log StopThreads_Inr(2) [OF d(1,2)]]
    have h: "heap s1 b = None" for b
    proof (cases "b = a")
      case True
      then show ?thesis by (simp add: d(3))
    next
      case False
      with well_formedD(1) [OF assms(1), of b] Some have "heap s b = None" by simp
      with keptD(4) [OF k, of b] False show ?thesis by (simp add: d(3))
    qed
    have j: "returned s1 t"
      if "heap s a = Some p'" "t \<in> set (thread_list p')" "threads s t \<noteq> None"
        "join_result e t = 0" for p' t
    proof -
      from that(1) d(1) have "p' = p" by simp
      with StopThreads_Inr(5) [OF d(1,2), of t] that show ?thesis
        by (simp add: d(3) returned_def pc_of_def)
    qed
    have t: "rel_option (\<lambda>w w'. arg w' = arg w) (threads s t) (threads s1 t)" for t
      using keptD(6) [OF k, of t] by (simp add: d(3))
    have r: "returned s1 t" if "returned s t" for t
      using keptD(7) [OF k that] by (simp add: d(3) returned_def pc_of_def)
    have n: "next_addr s1 = next_addr s \<and> next_tid s1 = next_tid s"
      using keptD(2,3) [OF k] by (simp add: d(3))
    from h j t r n Some show ?thesis by simp
  qed
  then show "\<And>a. heap s1 a = None"
    and "next_addr s1 = next_addr s" and "next_tid s1 = next_tid s"
    and "\<And>t. rel_option (\<lambda>w w'. arg w' = arg w) (threads s t) (threads s1 t)"
    and "\<And>t. returned s t \<Longrightarrow> returned s1 t"
    and "\<And>a p t. singleton s = Some a \<Longrightarrow> heap s a = Some p \<Longrightarrow> t \<in> set (thread_list p)
           \<Longrightarrow> threads s t \<noteq> None \<Longrightarrow> join_result e t = 0 \<Longrightarrow> returned s1 t"
    by blast+
qed

lemma Initialize_Inr:
  assumes "Initialize e count s = Inr (r, s')"
  shows "\<exists>s1. (if singleton s \<noteq> None then Destroy e (log_line WARN msg_recreate s) else Inr s) = Inr s1
           \<and> r \<and> 1 \<le> count \<and> singleton s1 = None \<and> mutex_init_result e = 0
           \<and> all_created e count \<and> s' = (constructed count s1)\<lparr>singleton := Some (next_addr s1)\<rparr>"
proof -
  let ?D = "if singleton s \<noteq> None then Destroy e (log_line WARN msg_recreate s) else Inr s"
  from assms obtain s1 where s1: "?D = Inr s1"
    unfolding Initialize_eq by (cases ?D) simp_all
  from assms s1 obtain a s2 where n: "new_ThreadPoolMan e count s1 = Inr (a, s2)"
    unfolding Initialize_eq by (cases "new_ThreadPoolMan e count s1") auto
  from assms s1 n have r: "r" "s' = s2\<lparr>singleton := Some a\<rparr>"
    unfolding Initialize_eq by simp_all
  from new_ThreadPoolMan_Inr [OF n] s1 r show ?thesis
    by (intro exI [of _ s1]) simp
qed

lemma Initialize_well_formed:
  assumes "well_formed s" and "Initialize e count s = Inr (r, s')"
  shows "well_formed s'" and "singleton s' = Some (next_addr s)"
    and "\<And>a. heap s' a \<noteq> None \<longleftrightarrow> a = next_addr s"
    and "singleton s \<noteq> Some (next_addr s)"
    and "\<And>t w. threads s t = Some w \<Longrightarrow>
           \<exists>w'. threads s' t = Some w' \<and> arg w' = arg w \<and> arg w' \<noteq> Some (next_addr s)"
    and "\<And>a p t. singleton s = Some a \<Longrightarrow> heap s a = Some p \<Longrightarrow> t \<in> set (thread_list p)
           \<Longrightarrow> threads s t \<noteq> None \<Longrightarrow> join_result e t = 0 \<Longrightarrow> returned s' t"
proof -
  from Initialize_Inr [OF assms(2)] obtain s1 where s1:
    "(if singleton s \<noteq> None then Destroy e (log_line WARN msg_recreate s) else Inr s) = Inr s1"
    "singleton s1 = None" "s' = (constructed count s1)\<lparr>singleton := Some (next_addr s1)\<rparr>"
    by blast
  have D: "(\<forall>a. heap s1 a = None) \<and> next_addr s1 = next_addr s \<and> next_tid s1 = next_tid s
      \<and> (\<forall>t. rel_option (\<lambda>w w'. arg w' = arg w) (threads s t) (threads s1 t))
      \<and> (\<forall>t. returned s t \<longrightarrow> returned s1 t)
      \<and> (\<forall>a p t. singleton s = Some a \<longrightarrow> heap s a = Some p \<longrightarrow> t \<in> set (thread_list p)
           \<longrightarrow> threads s t \<noteq> None \<longrightarrow> join_result e t = 0 \<longrightarrow> returned s1 t)"
  proof (cases "singleton s")
    case None
    with s1(1) have "s1 = s" by simp
    moreover have "heap s a = None" for a
      using well_formedD(1) [OF assms(1), of a] None by simp
    ultimately show ?thesis
      using None by (simp add: rel_option_refl)
  next
    case (Some a)
    with s1(1) have "Destroy e (log_line WARN msg_recreate s) = Inr s1" by simp
    from Destroy_well_formed(2-7) [OF assms(1) this] show ?thesis by blast
  qed
  then have h1: "heap s1 a = None" and na: "next_addr s1 = next_addr s"
    and nt: "next_tid s1 = next_tid s"
    and th: "rel_option (\<lambda>w w'. arg w' = arg w) (threads s t) (threads s1 t)"
    and jn: "singleton s = Some a \<Longrightarrow> heap s a = Some p \<Longrightarrow> t \<in> set (thread_list p)
           \<Longrightarrow> threads s t \<noteq> None \<Longrightarrow> join_result e t = 0 \<Longrightarrow> returned s1 t"
    for a p t by blast+
  have old: "t < next_tid s" if "threads s1 t \<noteq> None" for t
  proof -
    from th [of t] that have "threads s t \<noteq> None"
      by (cases "threads s t") simp_all
    from well_formedD(4) [OF assms(1) this] show ?thesis .
  qed
  have t': "threads s' t = threads s1 t" if "t < next_tid s" for t
    using that by (simp add: s1(3) threads_constructed nt)
  show sg: "singleton s' = Some (next_addr s)"
    by (simp add: s1(3) na)
  show hp: "heap s' a \<noteq> None \<longleftrightarrow> a = next_addr s" for a
    by (simp add: s1(3) heap_constructed na h1)
  show "singleton s \<noteq> Some (next_addr s)"
    using well_formedD(2) [OF assms(1), of "next_addr s"] by auto
  show o: "\<exists>w'. threads s' t = Some w' \<and> arg w' = arg w \<and> arg w' \<noteq> Some (next_addr s)"
    if "threads s t = Some w" for t w
  proof -
    from th [of t] that obtain w1 where w1: "threads s1 t = Some w1" "arg w1 = arg w"
      by (cases "threads s1 t") simp_all
    from well_formedD(4) [OF assms(1), of t] that have "t < next_tid s" by simp
    from t' [OF this] w1 have "threads s' t = Some w1" by simp
    moreover have "arg w \<noteq> Some (next_addr s)"
      using well_formedD(3) [OF assms(1) that, of "next_addr s"] by auto
    ultimately show ?thesis using w1(2) by simp
  qed
  show "returned s' t"
    if "singleton s = Some a" "heap s a = Some p" "t \<in> set (thread_list p)"
      "threads s t \<noteq> None" "join_result e t = 0" for a p t
  proof -
    from well_formedD(4) [OF assms(1) that(4)] have "t < next_tid s" .
    from t' [OF this] jn [OF that] show ?thesis
      by (simp add: returned_def pc_of_def)
  qed
  show "well_formed s'"
  proof (rule well_formedI)
    show "heap s' a \<noteq> None \<longleftrightarrow> singleton s' = Some a" for a
      using hp [of a] sg by auto
    show "a < next_addr s'" if "singleton s' = Some a" for a
      using that sg by (simp add: s1(3) na)
    show "a < next_addr s'" if "threads s' t = Some w" "arg w = Some a" for t w a
    proof (cases "t < next_tid s")
      case True
      from t' [OF True] that(1) have w1: "threads s1 t = Some w" by simp
      with th [of t] obtain w0 where "threads s t = Some w0" "arg w0 = arg w"
        by (cases "threads s t") simp_all
      from well_formedD(3) [OF assms(1) this(1), of a] this(2) that(2) show ?thesis
        by (simp add: s1(3) na)
    next
      case False
      with that old [of t] show ?thesis
        by (auto simp: s1(3) threads_constructed nt na split: if_splits)
    qed
    show "t < next_tid s'" if "threads s' t \<noteq> None" for t
      using that old [of t]
      by (auto simp: s1(3) threads_constructed nt split: if_splits)
  qed
qed

text \<open>The threads inside \<^verbatim>\<open>Instruct\<close> are left where they are.\<close>

lemma Worker_callers: "Worker t s = Some s' \<Longrightarrow> callers s' = callers s"
  by (erule Worker_SomeE) simp_all

lemma run_threads_callers [simp]: "callers (run_threads ts s) = callers s"
proof (induction ts arbitrary: s)
  case Nil
  show ?case by simp
next
  case (Cons t ts)
  show ?case
  proof (cases "Worker t s")
    case None
    with Cons show ?thesis by simp
  next
    case (Some s1)
    with Cons Worker_callers [OF Some] show ?thesis by simp
  qed
qed

lemma pthread_join_callers: "pthread_join e t s = Inr (r, s') \<Longrightarrow> callers s' = callers s"
  by (auto simp: pthread_join_def Let_def simp del: run_threads.simps
      split: option.splits if_splits wpc.splits)

lemma join_loop_callers: "join_loop e ts s = Inr s' \<Longrightarrow> callers s' = callers s"
proof (induction ts arbitrary: s)
  case Nil
  then show ?case by simp
next
  case (Cons t ts)
  show ?case
  proof (cases "pthread_join e t s")
    case (Inl f)
    with Cons.prems show ?thesis by simp
  next
    case (Inr x)
    obtain r s1 where x: "x = (r, s1)" by (cases x)
    let ?s2 = "if r \<noteq> 0 then log_line ERR msg_join_failed s1 else log_line DBG msg_join_ok s1"
    from Cons.prems Inr x have "join_loop e ts ?s2 = Inr s'" by simp
    from Cons.IH [OF this] pthread_join_callers [OF Inr [unfolded x]] show ?thesis
      by (simp split: if_splits)
  qed
qed

lemma StopThreads_callers:
  assumes "StopThreads e this s = Inr (r, s')"
  shows "callers s' = callers s"
proof (cases "heap s this")
  case None
  with assms show ?thesis by (simp add: StopThreads_def)
next
  case (Some p)
  show ?thesis
  proof (cases "thread_list p = []")
    case True
    with assms StopThreads_empty [OF Some True, of e] show ?thesis by auto
  next
    case False
    from assms StopThreads_nonempty [OF Some False, of e] obtain s2
      where s2: "join_loop e (thread_list p)
          (set_obj this (p\<lparr>is_exit := True,
             thpoolman_sem := thpoolman_sem p + length (thread_list p)\<rparr>) s) = Inr s2"
        "s' = upd_obj this (\<lambda>p'. p'\<lparr>thread_list := [], thpoolman_sem := 0\<rparr>) s2"
      by (auto split: sum.splits)
    from join_loop_callers [OF s2(1)] s2(2) show ?thesis by simp
  qed
qed

lemma callers_spawned [simp]: "callers (spawned this n s) = callers s"
  by (simp add: spawned_def)

lemma callers_constructed [simp]: "callers (constructed count s) = callers s"
  by (simp add: constructed_def)

lemma Destroy_callers:
  assumes "Destroy e s = Inr s'"
  shows "callers s' = callers s"
proof (cases "singleton s")
  case None
  with assms Destroy_None [OF None, of e] show ?thesis by simp
next
  case (Some a)
  from Destroy_Inr [OF assms Some] obtain r s1 where "StopThreads e a s = Inr (r, s1)"
    "s' = s1\<lparr>heap := (heap s1)(a := None), singleton := None\<rparr>" by blast
  with StopThreads_callers [OF this(1)] show ?thesis by simp
qed

lemma Initialize_callers:
  assumes "Initialize e count s = Inr (r, s')"
  shows "callers s' = callers s"
proof -
  from Initialize_Inr [OF assms] obtain s1 where s1:
    "(if singleton s \<noteq> None then Destroy e (log_line WARN msg_recreate s) else Inr s) = Inr s1"
    "s' = (constructed count s1)\<lparr>singleton := Some (next_addr s1)\<rparr>"
    by blast
  have "callers s1 = callers s"
  proof (cases "singleton s")
    case None
    with s1(1) show ?thesis by simp
  next
    case (Some a)
    with s1(1) have "Destroy e (log_line WARN msg_recreate s) = Inr s1" by simp
    from Destroy_callers [OF this] show ?thesis by simp
  qed
  with s1(2) show ?thesis by simp
qed

subsection \<open>Stopping\<close>

text \<open>
  C3: with no tracked worker \<^verbatim>\<open>StopThreads\<close> changes nothing (it logs one line and returns
  true). Otherwise it sets the exit flag and posts the wakeup semaphore once per tracked
  worker before the first join; whenever it returns, it has joined the whole list, the
  exit flag is still set, the worker list is empty, the wakeup count is zero, and every
  tracked thread whose join succeeded has returned from \<^verbatim>\<open>Worker\<close>. It does return when
  the schedule is fair, the tracked threads are workers of this object and no thread
  holds the mutex.
\<close>

theorem StopThreads_full_stop:
  assumes "heap s this = Some p"
  shows "(thread_list p = [] \<longrightarrow>
            StopThreads e this s = Inr (True, log_line INFO msg_nothing_to_stop s))
       \<and> (thread_list p \<noteq> [] \<longrightarrow>
            post_loop (length (thread_list p)) (SetExitFlag True p)
              = p\<lparr>is_exit := True, thpoolman_sem := thpoolman_sem p + length (thread_list p)\<rparr>
            \<and> (\<forall>r s'. StopThreads e this s = Inr (r, s') \<longrightarrow>
                 (\<exists>s2 p2. join_loop e (thread_list p)
                      (set_obj this (post_loop (length (thread_list p)) (SetExitFlag True p)) s)
                        = Inr s2
                    \<and> heap s2 this = Some p2 \<and> is_exit p2 \<and> thread_list p2 = thread_list p
                    \<and> s' = set_obj this (p2\<lparr>thread_list := [], thpoolman_sem := 0\<rparr>) s2
                    \<and> (\<forall>t\<in>set (thread_list p).
                          threads s t \<noteq> None \<and> join_result e t = 0 \<longrightarrow> returned s' t)))
            \<and> (fair e \<and> tracked s this (thread_list p) \<and> thread_list_lock p = None \<longrightarrow>
                 (\<exists>s'. StopThreads e this s = Inr (True, s'))))"
proof -
  let ?p1 = "p\<lparr>is_exit := True, thpoolman_sem := thpoolman_sem p + length (thread_list p)\<rparr>"
  let ?s1 = "set_obj this ?p1 s"
  have pl: "post_loop (length (thread_list p)) (SetExitFlag True p) = ?p1"
    by (simp add: post_loop_eq SetExitFlag_def)
  have A: "StopThreads e this s = Inr (True, log_line INFO msg_nothing_to_stop s)"
    if "thread_list p = []"
    using StopThreads_empty [OF assms that] .
  have B: "\<exists>s2 p2. join_loop e (thread_list p)
                      (set_obj this (post_loop (length (thread_list p)) (SetExitFlag True p)) s)
                        = Inr s2
                    \<and> heap s2 this = Some p2 \<and> is_exit p2 \<and> thread_list p2 = thread_list p
                    \<and> s' = set_obj this (p2\<lparr>thread_list := [], thpoolman_sem := 0\<rparr>) s2
                    \<and> (\<forall>t\<in>set (thread_list p).
                          threads s t \<noteq> None \<and> join_result e t = 0 \<longrightarrow> returned s' t)"
    if ne: "thread_list p \<noteq> []" and st: "StopThreads e this s = Inr (r, s')" for r s'
  proof -
    from st StopThreads_nonempty [OF assms ne, of e]
    obtain s2 where s2: "join_loop e (thread_list p) ?s1 = Inr s2"
      "s' = upd_obj this (\<lambda>p'. p'\<lparr>thread_list := [], thpoolman_sem := 0\<rparr>) s2"
      by (auto split: sum.splits)
    note J = join_loop_workers_only [OF s2(1)]
    from workers_only_heap [OF conjunct1 [OF J], of this] obtain p2
      where p2: "heap s2 this = Some p2" "is_exit p2" "thread_list p2 = thread_list p"
      by (auto simp: same_members_def elim!: option.rel_cases)
    have s': "s' = set_obj this (p2\<lparr>thread_list := [], thpoolman_sem := 0\<rparr>) s2"
      unfolding s2(2) using p2(1) by (simp add: upd_obj_def)
    have "returned s' t"
      if "t \<in> set (thread_list p)" "threads s t \<noteq> None" "join_result e t = 0" for t
      using J that unfolding s2(2) by simp
    with s2(1) p2 s' show ?thesis
      unfolding pl by blast
  qed
  have C: "\<exists>s'. StopThreads e this s = Inr (True, s')"
    if a: "fair e \<and> tracked s this (thread_list p) \<and> thread_list_lock p = None"
  proof -
    from a have f: "fair e" and tr: "tracked s this (thread_list p)"
      and l: "thread_list_lock p = None" by simp_all
    show ?thesis
      by (rule StopThreads_returns [OF f assms tr l])
  qed
  show ?thesis
    using A pl B C by (intro conjI impI allI) blast+
qed

text \<open>
  C10: \<^verbatim>\<open>StopThreads\<close> never aborts and never returns false: whenever it returns, the
  value is true, whatever the joins have answered. It does return, with true, when the
  schedule is fair, the tracked threads are workers of this object and no thread holds
  the mutex; a failing join is logged and the stopping goes on.
\<close>

theorem StopThreads_true:
  "StopThreads e this s \<noteq> Inl (Aborted l)
   \<and> (\<forall>r s'. StopThreads e this s = Inr (r, s') \<longrightarrow> r)
   \<and> (\<forall>p. fair e \<and> heap s this = Some p \<and> tracked s this (thread_list p)
          \<and> thread_list_lock p = None \<longrightarrow>
        (\<exists>s'. StopThreads e this s = Inr (True, s')))"
proof -
  have 1: "StopThreads e this s \<noteq> Inl (Aborted l)"
    using StopThreads_fault [of e this s "Aborted l"] by auto
  have 2: "r" if "StopThreads e this s = Inr (r, s')" for r s'
  proof (cases "heap s this")
    case None
    with that show ?thesis by (simp add: StopThreads_def)
  next
    case (Some p)
    from StopThreads_Inr(1) [OF Some that] show ?thesis .
  qed
  have 3: "\<exists>s'. StopThreads e this s = Inr (True, s')"
    if a: "fair e \<and> heap s this = Some p \<and> tracked s this (thread_list p)
          \<and> thread_list_lock p = None" for p
  proof -
    from a have f: "fair e" and h: "heap s this = Some p"
      and tr: "tracked s this (thread_list p)" and l: "thread_list_lock p = None" by simp_all
    show ?thesis
      by (rule StopThreads_returns [OF f h tr l])
  qed
  show ?thesis
    using 1 2 3 by (intro conjI allI impI) blast+
qed

subsection \<open>Starting\<close>


subsection \<open>Initialize\<close>

lemma Destroy_returns:
  assumes "singleton s = Some a" and "heap s a = Some p" and "fair e"
    and "tracked s a (thread_list p)" and "thread_list_lock p = None"
  shows "(\<exists>s1. Destroy e s = Inr s1) \<or> Destroy e s = Inl (Aborted (CRIT, msg_dtor_lock))"
proof -
  from StopThreads_returns [OF assms(3,2,4,5)] obtain s1
    where "StopThreads e a s = Inr (True, s1)" by blast
  with Destroy_Some [OF assms(1,2), of e] show ?thesis
    by (cases "is_lock_init p \<and> mutex_destroy_result e \<noteq> 0") simp_all
qed

lemma Initialize_Destroy_fault:
  "singleton s \<noteq> None \<Longrightarrow> Destroy e (log_line WARN msg_recreate s) = Inl f \<Longrightarrow>
   Initialize e count s = Inl f"
  by (simp add: Initialize_eq)

lemma Initialize_after:
  assumes "(if singleton s \<noteq> None then Destroy e (log_line WARN msg_recreate s) else Inr s) = Inr s1"
  shows "Initialize e count s =
           (case new_ThreadPoolMan e count s1 of
              Inl f \<Rightarrow> Inl f
            | Inr (a, s2) \<Rightarrow> Inr (True, s2\<lparr>singleton := Some a\<rparr>))"
    and "singleton s1 = None"
proof -
  show "Initialize e count s =
           (case new_ThreadPoolMan e count s1 of
              Inl f \<Rightarrow> Inl f
            | Inr (a, s2) \<Rightarrow> Inr (True, s2\<lparr>singleton := Some a\<rparr>))"
    unfolding Initialize_eq assms by simp
  show "singleton s1 = None"
  proof (cases "singleton s")
    case None
    with assms show ?thesis by simp
  next
    case (Some a)
    with assms have "Destroy e (log_line WARN msg_recreate s) = Inr s1" by simp
    from Destroy_singleton [OF this] show ?thesis .
  qed
qed

text \<open>
  C8: \<^verbatim>\<open>Initialize\<close> never returns false: whenever it returns, the value is true, \<open>count\<close>
  is at least one, the lock was initialised and every thread was created. A fault of
  the \<^verbatim>\<open>Destroy\<close> of the previous instance is the fault of \<^verbatim>\<open>Initialize\<close>. Once the
  previous instance, if any, has been destroyed, the constructor aborts for \<open>count < 1\<close>
  and aborts when \<^verbatim>\<open>pthread_mutex_init\<close> fails; for \<open>count \<ge> 1\<close> \<^verbatim>\<open>Initialize\<close> returns
  true with the singleton set to the new object when every thread is created, and
  otherwise does not return: it aborts after \<^verbatim>\<open>StartThreads\<close> has failed, unless it still
  waits in a join (which does not happen under a fair schedule). So for \<open>count < 1\<close> it
  never returns, and it aborts when there is no previous instance or the previous
  instance can be stopped (a fair schedule, the tracked threads its workers, the mutex
  free).
\<close>

theorem Initialize_never_false:
  "(\<forall>r s'. Initialize e count s = Inr (r, s') \<longrightarrow>
       r \<and> 1 \<le> count \<and> mutex_init_result e = 0 \<and> all_created e count)
   \<and> (\<forall>f. singleton s \<noteq> None \<and> Destroy e (log_line WARN msg_recreate s) = Inl f \<longrightarrow>
         Initialize e count s = Inl f)
   \<and> (\<forall>s1. (if singleton s \<noteq> None then Destroy e (log_line WARN msg_recreate s) else Inr s)
               = Inr s1 \<longrightarrow>
         (count < 1 \<longrightarrow> Initialize e count s = Inl (Aborted (CRIT, msg_ctor_count)))
         \<and> (1 \<le> count \<and> mutex_init_result e \<noteq> 0 \<longrightarrow>
              Initialize e count s = Inl (Aborted (CRIT, msg_ctor_lock)))
         \<and> (1 \<le> count \<and> mutex_init_result e = 0 \<and> all_created e count \<longrightarrow>
              Initialize e count s =
                Inr (True, (constructed count s1)\<lparr>singleton := Some (next_addr s1)\<rparr>))
         \<and> (1 \<le> count \<and> mutex_init_result e = 0 \<and> \<not> all_created e count \<longrightarrow>
              (Initialize e count s = Inl Blocked
               \<or> Initialize e count s = Inl (Aborted (ERR, msg_ctor_start)))
              \<and> (fair e \<longrightarrow> Initialize e count s = Inl (Aborted (ERR, msg_ctor_start)))))
   \<and> (count < 1 \<longrightarrow>
         (\<exists>f. Initialize e count s = Inl f)
         \<and> (singleton s = None
             \<or> (\<exists>a p. singleton s = Some a \<and> heap s a = Some p \<and> fair e
                   \<and> tracked s a (thread_list p) \<and> thread_list_lock p = None) \<longrightarrow>
              (\<exists>l. Initialize e count s = Inl (Aborted l))))"
proof -
  let ?D = "if singleton s \<noteq> None then Destroy e (log_line WARN msg_recreate s) else Inr s"
  have 1: "r \<and> 1 \<le> count \<and> mutex_init_result e = 0 \<and> all_created e count"
    if "Initialize e count s = Inr (r, s')" for r s'
    using Initialize_Inr [OF that] by blast
  have 2: "Initialize e count s = Inl f"
    if "singleton s \<noteq> None \<and> Destroy e (log_line WARN msg_recreate s) = Inl f" for f
    using Initialize_Destroy_fault [of s e f count] that by simp
  have 3: "Initialize e count s = Inl (Aborted (CRIT, msg_ctor_count))"
    if "?D = Inr s1" "count < 1" for s1
    unfolding Initialize_after(1) [OF that(1)]
    using that(2) by (simp add: new_ThreadPoolMan_aborts(1))
  have 4: "Initialize e count s = Inl (Aborted (CRIT, msg_ctor_lock))"
    if "?D = Inr s1" "1 \<le> count \<and> mutex_init_result e \<noteq> 0" for s1
    unfolding Initialize_after(1) [OF that(1)]
    using that(2) Initialize_after(2) [OF that(1)] by (simp add: new_ThreadPoolMan_aborts(3))
  have 5: "Initialize e count s =
                Inr (True, (constructed count s1)\<lparr>singleton := Some (next_addr s1)\<rparr>)"
    if "?D = Inr s1" "1 \<le> count \<and> mutex_init_result e = 0 \<and> all_created e count" for s1
    unfolding Initialize_after(1) [OF that(1)]
    using that(2) Initialize_after(2) [OF that(1)] by (simp add: new_ThreadPoolMan_ok)
  have 6: "Initialize e count s = Inl Blocked
               \<or> Initialize e count s = Inl (Aborted (ERR, msg_ctor_start))"
    if "?D = Inr s1" "1 \<le> count \<and> mutex_init_result e = 0 \<and> \<not> all_created e count" for s1
    unfolding Initialize_after(1) [OF that(1)]
    using new_ThreadPoolMan_create_fails(1) [of count s1 e] that(2)
      Initialize_after(2) [OF that(1)]
    by auto
  have 7: "Initialize e count s = Inl (Aborted (ERR, msg_ctor_start))"
    if "?D = Inr s1" "1 \<le> count \<and> mutex_init_result e = 0 \<and> \<not> all_created e count"
      "fair e" for s1
    unfolding Initialize_after(1) [OF that(1)]
    using new_ThreadPoolMan_create_fails(2) [of count s1 e] that(2,3)
      Initialize_after(2) [OF that(1)]
    by simp
  have 8: "\<exists>f. Initialize e count s = Inl f" if "count < 1"
  proof (cases "Initialize e count s")
    case (Inl f)
    then show ?thesis by blast
  next
    case (Inr x)
    obtain r s' where "x = (r, s')" by (cases x)
    with 1 [of r s'] Inr that show ?thesis by simp
  qed
  have 9: "\<exists>l. Initialize e count s = Inl (Aborted l)"
    if c: "count < 1"
      and a: "singleton s = None
             \<or> (\<exists>a p. singleton s = Some a \<and> heap s a = Some p \<and> fair e
                   \<and> tracked s a (thread_list p) \<and> thread_list_lock p = None)"
  proof (cases "singleton s")
    case None
    then have "?D = Inr s" by simp
    from 3 [OF this c] show ?thesis by blast
  next
    case (Some a)
    with a obtain p where p: "heap s a = Some p" "fair e" "tracked s a (thread_list p)"
      "thread_list_lock p = None" by auto
    let ?s0 = "log_line WARN msg_recreate s"
    have "singleton ?s0 = Some a" "heap ?s0 a = Some p" "tracked ?s0 a (thread_list p)"
      using Some p by simp_all
    from Destroy_returns [OF this(1,2) p(2) this(3) p(4)]
    show ?thesis
    proof
      assume "\<exists>s1. Destroy e ?s0 = Inr s1"
      then obtain s1 where "Destroy e ?s0 = Inr s1" by blast
      with Some have "?D = Inr s1" by simp
      from 3 [OF this c] show ?thesis by blast
    next
      assume "Destroy e ?s0 = Inl (Aborted (CRIT, msg_dtor_lock))"
      with 2 [of "Aborted (CRIT, msg_dtor_lock)"] Some show ?thesis by auto
    qed
  qed
  have A: "(count < 1 \<longrightarrow> Initialize e count s = Inl (Aborted (CRIT, msg_ctor_count)))
         \<and> (1 \<le> count \<and> mutex_init_result e \<noteq> 0 \<longrightarrow>
              Initialize e count s = Inl (Aborted (CRIT, msg_ctor_lock)))
         \<and> (1 \<le> count \<and> mutex_init_result e = 0 \<and> all_created e count \<longrightarrow>
              Initialize e count s =
                Inr (True, (constructed count s1)\<lparr>singleton := Some (next_addr s1)\<rparr>))
         \<and> (1 \<le> count \<and> mutex_init_result e = 0 \<and> \<not> all_created e count \<longrightarrow>
              (Initialize e count s = Inl Blocked
               \<or> Initialize e count s = Inl (Aborted (ERR, msg_ctor_start)))
              \<and> (fair e \<longrightarrow> Initialize e count s = Inl (Aborted (ERR, msg_ctor_start))))"
    if d: "?D = Inr s1" for s1
    using 3 [OF d] 4 [OF d] 5 [OF d] 6 [OF d] 7 [OF d] by (intro conjI impI) blast+
  have B: "count < 1 \<longrightarrow>
         (\<exists>f. Initialize e count s = Inl f)
         \<and> (singleton s = None
             \<or> (\<exists>a p. singleton s = Some a \<and> heap s a = Some p \<and> fair e
                   \<and> tracked s a (thread_list p) \<and> thread_list_lock p = None) \<longrightarrow>
              (\<exists>l. Initialize e count s = Inl (Aborted l)))"
    using 8 9 by blast
  show ?thesis
  proof (intro conjI)
    show "\<forall>r s'. Initialize e count s = Inr (r, s') \<longrightarrow>
       r \<and> 1 \<le> count \<and> mutex_init_result e = 0 \<and> all_created e count"
      using 1 by blast
    show "\<forall>f. singleton s \<noteq> None \<and> Destroy e (log_line WARN msg_recreate s) = Inl f \<longrightarrow>
         Initialize e count s = Inl f"
      using 2 by blast
    show "\<forall>s1. ?D = Inr s1 \<longrightarrow>
         (count < 1 \<longrightarrow> Initialize e count s = Inl (Aborted (CRIT, msg_ctor_count)))
         \<and> (1 \<le> count \<and> mutex_init_result e \<noteq> 0 \<longrightarrow>
              Initialize e count s = Inl (Aborted (CRIT, msg_ctor_lock)))
         \<and> (1 \<le> count \<and> mutex_init_result e = 0 \<and> all_created e count \<longrightarrow>
              Initialize e count s =
                Inr (True, (constructed count s1)\<lparr>singleton := Some (next_addr s1)\<rparr>))
         \<and> (1 \<le> count \<and> mutex_init_result e = 0 \<and> \<not> all_created e count \<longrightarrow>
              (Initialize e count s = Inl Blocked
               \<or> Initialize e count s = Inl (Aborted (ERR, msg_ctor_start)))
              \<and> (fair e \<longrightarrow> Initialize e count s = Inl (Aborted (ERR, msg_ctor_start))))"
      by (intro allI impI) (rule A)
    show "count < 1 \<longrightarrow>
         (\<exists>f. Initialize e count s = Inl f)
         \<and> (singleton s = None
             \<or> (\<exists>a p. singleton s = Some a \<and> heap s a = Some p \<and> fair e
                   \<and> tracked s a (thread_list p) \<and> thread_list_lock p = None) \<longrightarrow>
              (\<exists>l. Initialize e count s = Inl (Aborted l)))"
      by (rule B)
  qed
qed


subsection \<open>Instruct\<close>

lemma worker_releases:
  assumes "threads s t = Some w" and "worker_in_block a w" and "heap s a = Some p"
  shows "\<exists>n\<le>2. \<exists>s2 p2. run (replicate n (Act_Worker t)) s = Some s2
           \<and> heap s2 a = Some p2 \<and> thread_list_lock p2 = None"
proof -
  from assms(2) have arg: "arg w = Some a"
    and pc: "pc w = W_Fetch \<or> (\<exists>taken. pc w = W_Unlock taken)"
    by (auto simp: worker_in_block_def split: wpc.splits)
  have U: "\<exists>s2 p2. run [Act_Worker t] s1 = Some s2 \<and> heap s2 a = Some p2
      \<and> thread_list_lock p2 = None"
    if "threads s1 t = Some w1" "pc w1 = W_Unlock taken" "arg w1 = Some a" "heap s1 a = Some p1"
    for s1 w1 taken p1
    using Worker_Unlock [OF that] by simp
  from pc show ?thesis
  proof
    assume f: "pc w = W_Fetch"
    let ?s1 = "case instruction_list p of
         [] \<Rightarrow> set_pc t (W_Unlock None) (log_line DBG msg_empty_queue s)
       | param # rest \<Rightarrow>
           set_pc t (W_Unlock (Some param)) (set_obj a (p\<lparr>instruction_list := rest\<rparr>) s)"
    have 1: "Worker t s = Some ?s1"
      using Worker_Fetch [OF assms(1) f arg assms(3)] .
    obtain w1 taken p1 where 2: "threads ?s1 t = Some w1" "pc w1 = W_Unlock taken"
      "arg w1 = Some a" "heap ?s1 a = Some p1"
      using assms(1,3) arg by (cases "instruction_list p") simp_all
    from U [OF 2] obtain s2 p2 where "run [Act_Worker t] ?s1 = Some s2" "heap s2 a = Some p2"
      "thread_list_lock p2 = None" by blast
    with 1 have "run (replicate 2 (Act_Worker t)) s = Some s2 \<and> heap s2 a = Some p2
        \<and> thread_list_lock p2 = None"
      by (simp add: numeral_2_eq_2)
    then show ?thesis by blast
  next
    assume "\<exists>taken. pc w = W_Unlock taken"
    then obtain taken where "pc w = W_Unlock taken" by blast
    from U [OF assms(1) this arg assms(3)] obtain s2 p2
      where "run [Act_Worker t] s = Some s2" "heap s2 a = Some p2" "thread_list_lock p2 = None"
      by blast
    then have "run (replicate 1 (Act_Worker t)) s = Some s2 \<and> heap s2 a = Some p2
        \<and> thread_list_lock p2 = None"
      by simp
    then show ?thesis
      by (intro exI [of _ 1]) auto
  qed
qed

lemma caller_releases:
  assumes "callers s c = Some i" and "caller_in_block a i" and "heap s a = Some p"
  shows "\<exists>n\<le>2. \<exists>s2 p2. run (replicate n (Act_Instruct c)) s = Some s2
           \<and> heap s2 a = Some p2 \<and> thread_list_lock p2 = None"
proof -
  from assms(2) have pc: "(\<exists>param. i = I_Push a param) \<or> i = I_Unlock a"
    by (auto simp: caller_in_block_def split: ipc.splits)
  have U: "\<exists>s2 p2. run [Act_Instruct c] s1 = Some s2 \<and> heap s2 a = Some p2
      \<and> thread_list_lock p2 = None"
    if "callers s1 c = Some (I_Unlock a)" "heap s1 a = Some p1" for s1 p1
    using Instruct_Unlock [OF that] by simp
  from pc show ?thesis
  proof
    assume "\<exists>param. i = I_Push a param"
    then obtain param where i: "i = I_Push a param" by blast
    let ?s1 = "set_ipc c (I_Unlock a)
       (set_obj a (p\<lparr>instruction_list := instruction_list p @ [param]\<rparr>) s)"
    have 1: "Instruct c s = Some ?s1"
      using Instruct_Push [OF assms(1) [unfolded i] assms(3)] .
    have 2: "callers ?s1 c = Some (I_Unlock a)"
      "heap ?s1 a = Some (p\<lparr>instruction_list := instruction_list p @ [param]\<rparr>)"
      by simp_all
    from U [OF 2] obtain s2 p2 where "run [Act_Instruct c] ?s1 = Some s2" "heap s2 a = Some p2"
      "thread_list_lock p2 = None" by blast
    with 1 have "run (replicate 2 (Act_Instruct c)) s = Some s2 \<and> heap s2 a = Some p2
        \<and> thread_list_lock p2 = None"
      by (simp add: numeral_2_eq_2)
    then show ?thesis by blast
  next
    assume i: "i = I_Unlock a"
    from U [OF assms(1) [unfolded i] assms(3)] obtain s2 p2
      where "run [Act_Instruct c] s = Some s2" "heap s2 a = Some p2" "thread_list_lock p2 = None"
      by blast
    then have "run (replicate 1 (Act_Instruct c)) s = Some s2 \<and> heap s2 a = Some p2
        \<and> thread_list_lock p2 = None"
      by simp
    then show ?thesis
      by (intro exI [of _ 1]) auto
  qed
qed

lemma holder_releases:
  assumes "lock_inv s" and "heap s a = Some p" and "thread_list_lock p = Some x"
  shows "\<exists>n\<le>2. \<exists>s2 p2.
           run (replicate n (case x of By_Worker t \<Rightarrow> Act_Worker t
                             | By_Caller c \<Rightarrow> Act_Instruct c)) s = Some s2
           \<and> heap s2 a = Some p2 \<and> thread_list_lock p2 = None"
proof -
  have x: "x \<in> holders s a"
    unfolding lock_invD [OF assms(1,2)] using assms(3) by simp
  show ?thesis
  proof (cases x)
    case (By_Worker t)
    with x obtain w where "threads s t = Some w" "worker_in_block a w"
      by (auto simp: holders_def)
    from worker_releases [OF this assms(2)] By_Worker show ?thesis by simp
  next
    case (By_Caller c)
    with x obtain i where "callers s c = Some i" "caller_in_block a i"
      by (auto simp: holders_def)
    from caller_releases [OF this assms(2)] By_Caller show ?thesis by simp
  qed
qed

text \<open>
  C4: a thread that has entered \<^verbatim>\<open>Instruct\<close> always has a step. Without a singleton that
  step logs a warning, leaves every object as it is and returns false, also right after
  \<^verbatim>\<open>Destroy\<close>. With a singleton whose mutex is free, the call runs to its end in five
  steps of its own: after the third the descriptor is at the back of the queue and the
  thread still holds the mutex; at the end the mutex is free again, the wakeup
  semaphore has been posted once, the thread has returned true, and the run has pushed
  exactly this descriptor. The thread waits only while another thread holds the mutex,
  and under the discipline of the mutex that thread frees it within two steps of its
  own.
\<close>

theorem Instruct_enqueues:
  assumes "callers s c = Some (I_Entry param)"
  shows "Instruct c s \<noteq> None
       \<and> (singleton s = None \<longrightarrow>
            run [Act_Instruct c] s
              = Some (set_ipc c (I_Return False) (log_line WARN msg_not_initialized s))
            \<and> heap (set_ipc c (I_Return False) (log_line WARN msg_not_initialized s)) = heap s
            \<and> enqueued a [Act_Instruct c] s = [])
       \<and> (\<forall>p. singleton s = Some a \<and> heap s a = Some p \<and> thread_list_lock p = None \<longrightarrow>
            run [Act_Instruct c, Act_Instruct c, Act_Instruct c] s
              = Some (set_ipc c (I_Unlock a)
                  (set_obj a (push_back param (p\<lparr>thread_list_lock := Some (By_Caller c)\<rparr>)) s))
            \<and> run [Act_Instruct c, Act_Instruct c, Act_Instruct c, Act_Instruct c,
                    Act_Instruct c] s
              = Some (set_ipc c (I_Return True)
                  (set_obj a (p\<lparr>instruction_list := instruction_list p @ [param],
                                thpoolman_sem := Suc (thpoolman_sem p)\<rparr>) s))
            \<and> enqueued a [Act_Instruct c, Act_Instruct c, Act_Instruct c, Act_Instruct c,
                    Act_Instruct c] s = [param])
       \<and> (\<forall>p x. singleton s = Some a \<and> heap s a = Some p \<and> thread_list_lock p = Some x
              \<and> lock_inv s \<longrightarrow>
            run [Act_Instruct c, Act_Instruct c] s = None
            \<and> (\<exists>n\<le>2. \<exists>s2 p2.
                  run (replicate n (case x of By_Worker t \<Rightarrow> Act_Worker t
                                    | By_Caller d \<Rightarrow> Act_Instruct d)) s = Some s2
                  \<and> heap s2 a = Some p2 \<and> thread_list_lock p2 = None))
       \<and> (\<forall>e s0. Destroy e s0 = Inr s \<longrightarrow>
            Instruct c s = Some (set_ipc c (I_Return False) (log_line WARN msg_not_initialized s)))"
proof -
  note E = Instruct_Entry [OF assms]
  have 0: "Instruct c s \<noteq> None"
    using E by simp
  have 1: "Instruct c s = Some (set_ipc c (I_Return False) (log_line WARN msg_not_initialized s))"
    if "singleton s = None"
    using E that by simp
  have 2: "run [Act_Instruct c] s
              = Some (set_ipc c (I_Return False) (log_line WARN msg_not_initialized s))
            \<and> heap (set_ipc c (I_Return False) (log_line WARN msg_not_initialized s)) = heap s
            \<and> enqueued a [Act_Instruct c] s = []"
    if "singleton s = None"
    using 1 [OF that] assms by (simp add: gave_def)
  have 3: "run [Act_Instruct c, Act_Instruct c, Act_Instruct c] s
              = Some (set_ipc c (I_Unlock a)
                  (set_obj a (push_back param (p\<lparr>thread_list_lock := Some (By_Caller c)\<rparr>)) s))
            \<and> run [Act_Instruct c, Act_Instruct c, Act_Instruct c, Act_Instruct c,
                    Act_Instruct c] s
              = Some (set_ipc c (I_Return True)
                  (set_obj a (p\<lparr>instruction_list := instruction_list p @ [param],
                                thpoolman_sem := Suc (thpoolman_sem p)\<rparr>) s))
            \<and> enqueued a [Act_Instruct c, Act_Instruct c, Act_Instruct c, Act_Instruct c,
                    Act_Instruct c] s = [param]"
    if b: "singleton s = Some a \<and> heap s a = Some p \<and> thread_list_lock p = None" for p
  proof -
    from b have s: "singleton s = Some a" and h: "heap s a = Some p"
      and l: "thread_list_lock p = None" by simp_all
    note I = Instruct_call_steps [OF assms s h l]
    have q: "sem_post (push_back param p)
        = p\<lparr>instruction_list := instruction_list p @ [param],
             thpoolman_sem := Suc (thpoolman_sem p)\<rparr>"
      by (simp add: sem_post_def push_back_def)
    show ?thesis
      using I(3) I(5) I(6) unfolding q by (intro conjI)
  qed
  have 4: "run [Act_Instruct c, Act_Instruct c] s = None
            \<and> (\<exists>n\<le>2. \<exists>s2 p2.
                  run (replicate n (case x of By_Worker t \<Rightarrow> Act_Worker t
                                    | By_Caller d \<Rightarrow> Act_Instruct d)) s = Some s2
                  \<and> heap s2 a = Some p2 \<and> thread_list_lock p2 = None)"
    if b: "singleton s = Some a \<and> heap s a = Some p \<and> thread_list_lock p = Some x
              \<and> lock_inv s" for p x
  proof -
    from b have s: "singleton s = Some a" and h: "heap s a = Some p"
      and l: "thread_list_lock p = Some x" and i: "lock_inv s" by simp_all
    let ?s1 = "set_ipc c (I_Lock a param) s"
    have e: "Instruct c s = Some ?s1"
      using E s by simp
    have "Instruct c ?s1 = None"
      using Instruct_Lock [of ?s1 c a param p] h l by simp
    with e have r: "run [Act_Instruct c, Act_Instruct c] s = None"
      by simp
    from r holder_releases [OF i h l] show ?thesis
      by (intro conjI)
  qed
  have 5: "Instruct c s = Some (set_ipc c (I_Return False) (log_line WARN msg_not_initialized s))"
    if "Destroy e s0 = Inr s" for e s0
    using 1 [OF Destroy_singleton [OF that]] .
  show ?thesis
  proof (intro conjI)
    show "Instruct c s \<noteq> None" by (rule 0)
    show "singleton s = None \<longrightarrow>
            run [Act_Instruct c] s
              = Some (set_ipc c (I_Return False) (log_line WARN msg_not_initialized s))
            \<and> heap (set_ipc c (I_Return False) (log_line WARN msg_not_initialized s)) = heap s
            \<and> enqueued a [Act_Instruct c] s = []"
      by (rule impI) (rule 2)
    show "\<forall>p. singleton s = Some a \<and> heap s a = Some p \<and> thread_list_lock p = None \<longrightarrow>
            run [Act_Instruct c, Act_Instruct c, Act_Instruct c] s
              = Some (set_ipc c (I_Unlock a)
                  (set_obj a (push_back param (p\<lparr>thread_list_lock := Some (By_Caller c)\<rparr>)) s))
            \<and> run [Act_Instruct c, Act_Instruct c, Act_Instruct c, Act_Instruct c,
                    Act_Instruct c] s
              = Some (set_ipc c (I_Return True)
                  (set_obj a (p\<lparr>instruction_list := instruction_list p @ [param],
                                thpoolman_sem := Suc (thpoolman_sem p)\<rparr>) s))
            \<and> enqueued a [Act_Instruct c, Act_Instruct c, Act_Instruct c, Act_Instruct c,
                    Act_Instruct c] s = [param]"
      by (intro allI impI) (rule 3)
    show "\<forall>p x. singleton s = Some a \<and> heap s a = Some p \<and> thread_list_lock p = Some x
              \<and> lock_inv s \<longrightarrow>
            run [Act_Instruct c, Act_Instruct c] s = None
            \<and> (\<exists>n\<le>2. \<exists>s2 p2.
                  run (replicate n (case x of By_Worker t \<Rightarrow> Act_Worker t
                                    | By_Caller d \<Rightarrow> Act_Instruct d)) s = Some s2
                  \<and> heap s2 a = Some p2 \<and> thread_list_lock p2 = None)"
      by (intro allI impI) (rule 4)
    show "\<forall>e s0. Destroy e s0 = Inr s \<longrightarrow>
            Instruct c s = Some (set_ipc c (I_Return False) (log_line WARN msg_not_initialized s))"
      by (intro allI impI) (rule 5)
  qed
qed

subsection \<open>Examples\<close>

lemma ex_sys_simps [simp]:
  "singleton (ex_sys p c) = Some 0" "heap (ex_sys p c) 0 = Some p"
  "next_addr (ex_sys p c) = 1" "next_tid (ex_sys p c) = 1"
  "threads (ex_sys p c) t = (if t = 0 then Some \<lparr>arg = Some 0, pc = c\<rparr> else None)"
  "callers (ex_sys p c) = Map.empty" "sems (ex_sys p c) = (\<lambda>m. 0)" "logs (ex_sys p c) = []"
  by (simp_all add: ex_sys_def)

lemma ex_pool_simps [simp]:
  "is_exit (ex_pool x n q) = x" "thpoolman_sem (ex_pool x n q) = n"
  "thread_list (ex_pool x n q) = [0]" "instruction_list (ex_pool x n q) = q"
  "is_lock_init (ex_pool x n q)" "thread_list_lock (ex_pool x n q) = None"
  by (simp_all add: ex_pool_def)

lemma lock_inv_ex_sys:
  "\<not> worker_in_block 0 \<lparr>arg = Some 0, pc = c\<rparr> \<Longrightarrow> lock_inv (ex_sys (ex_pool x n q) c)"
  by (rule lock_invI)
     (auto simp: ex_sys_def holders_def ex_pool_def worker_in_block_def split: if_splits)

lemma ex_run_Some: "run ex_run (ex_sys (ex_pool False 0 []) W_Wait) \<noteq> None"
  by (simp add: ex_run_def ex_sys_def ex_pool_def step_def Worker_def Instruct_def
      SetInstruction_def set_obj_def set_pc_def set_ipc_def push_back_def sem_post_def IsExit_def
      AutoLock_lock_def AutoLock_unlock_def)

lemma ex_run_deq: "dequeued 0 ex_run (ex_sys (ex_pool False 0 []) W_Wait) = [task_a]"
  by (simp add: ex_run_def ex_sys_def ex_pool_def step_def Worker_def Instruct_def
      SetInstruction_def set_obj_def set_pc_def set_ipc_def push_back_def sem_post_def IsExit_def
      AutoLock_lock_def AutoLock_unlock_def took_def)

lemma ex_run_enq: "enqueued 0 ex_run (ex_sys (ex_pool False 0 []) W_Wait) = [task_a, task_b]"
  by (simp add: ex_run_def ex_sys_def ex_pool_def step_def Worker_def Instruct_def
      SetInstruction_def set_obj_def set_pc_def set_ipc_def push_back_def sem_post_def IsExit_def
      AutoLock_lock_def AutoLock_unlock_def gave_def)

lemma lock_inv_ex_held:
  "\<not> caller_in_block 0 i \<Longrightarrow>
   lock_inv (set_ipc 5 i
     (ex_sys ((ex_pool x n q)\<lparr>thread_list_lock := Some (By_Worker 0)\<rparr>) W_Fetch))"
  by (rule lock_invI)
     (auto simp: ex_sys_def holders_def ex_pool_def worker_in_block_def set_ipc_def
        split: if_splits)

theorem fifo_order_witness:
  "(\<exists>s' p'. run ex_run (ex_sys (ex_pool False 0 []) W_Wait) = Some s' \<and> heap s' 0 = Some p'
     \<and> [task_a] @ instruction_list p' = [] @ [task_a, task_b]
     \<and> lock_inv s' \<and> locked_access 0 ex_run (ex_sys (ex_pool False 0 []) W_Wait))
   \<and> run [Act_Instruct 5, Act_Instruct 5, Act_Instruct 5, Act_Instruct 5, Act_Instruct 5]
       (set_ipc 5 (I_Entry task_b) (ex_sys (ex_pool False 0 [task_a]) W_Wait))
     = Some (set_ipc 5 (I_Return True)
         (set_obj 0 (ex_pool False 1 [task_a, task_b])
           (set_ipc 5 (I_Entry task_b) (ex_sys (ex_pool False 0 [task_a]) W_Wait))))
   \<and> enqueued 0 ([Act_Call 5 task_b] @ [Act_Instruct 5, Act_Instruct 5, Act_Instruct 5,
         Act_Instruct 5, Act_Instruct 5]) (ex_sys (ex_pool False 0 [task_a]) W_Wait)
     = [] @ [task_b]"
proof -
  let ?s = "ex_sys (ex_pool False 0 []) W_Wait"
  obtain s' where s': "run ex_run ?s = Some s'"
    using ex_run_Some by blast
  have h: "heap ?s 0 = Some (ex_pool False 0 [])"
    by simp
  have l: "lock_inv ?s"
    by (rule lock_inv_ex_sys) (simp add: worker_in_block_def)
  from fifo_order [OF s' h] obtain p' where "heap s' 0 = Some p'"
    "dequeued 0 ex_run ?s @ instruction_list p' = instruction_list (ex_pool False 0 []) @ enqueued 0 ex_run ?s"
    "lock_inv ?s \<longrightarrow> lock_inv s' \<and> locked_access 0 ex_run ?s"
    by (elim exE conjE) (rule that; assumption)
  with s' l have A: "\<exists>s' p'. run ex_run ?s = Some s' \<and> heap s' 0 = Some p'
     \<and> [task_a] @ instruction_list p' = [] @ [task_a, task_b]
     \<and> lock_inv s' \<and> locked_access 0 ex_run ?s"
    unfolding ex_run_deq ex_run_enq by simp
  let ?t = "ex_sys (ex_pool False 0 [task_a]) W_Wait"
  let ?t' = "set_ipc 5 (I_Entry task_b) ?t"
  have r: "run [Act_Call 5 task_b] ?t = Some ?t'"
    by (simp add: step_def)
  have h': "heap ?t 0 = Some (ex_pool False 0 [task_a])"
    by simp
  have e: "enqueued 0 [Act_Call 5 task_b] ?t = []"
    by (simp add: step_def)
  have q: "sem_post (push_back task_b (ex_pool False 0 [task_a])) = ex_pool False 1 [task_a, task_b]"
    by (simp add: sem_post_def push_back_def ex_pool_def)
  from fifo_order [OF r h'] obtain p' where p': "heap ?t' 0 = Some p'"
    and I: "\<forall>c param. callers ?t' c = Some (I_Entry param) \<and> singleton ?t' = Some 0
                  \<and> thread_list_lock p' = None \<longrightarrow>
                run [Act_Instruct c, Act_Instruct c, Act_Instruct c] ?t'
                  = Some (set_ipc c (I_Unlock 0)
                      (set_obj 0 (push_back param
                          (p'\<lparr>thread_list_lock := Some (By_Caller c)\<rparr>)) ?t'))
                \<and> run [Act_Instruct c, Act_Instruct c, Act_Instruct c, Act_Instruct c,
                        Act_Instruct c] ?t'
                  = Some (set_ipc c (I_Return True)
                      (set_obj 0 (sem_post (push_back param p')) ?t'))
                \<and> enqueued 0 ([Act_Call 5 task_b] @ [Act_Instruct c, Act_Instruct c, Act_Instruct c,
                        Act_Instruct c, Act_Instruct c]) ?t
                  = enqueued 0 [Act_Call 5 task_b] ?t @ [param]"
    by (elim exE conjE) (rule that; assumption)
  from p' have p'eq: "p' = ex_pool False 0 [task_a]"
    by simp
  have pre: "callers ?t' 5 = Some (I_Entry task_b) \<and> singleton ?t' = Some 0
      \<and> thread_list_lock p' = None"
    unfolding p'eq by simp
  note J = I [THEN spec, THEN spec, THEN mp, OF pre]
  have B: "run [Act_Instruct 5, Act_Instruct 5, Act_Instruct 5, Act_Instruct 5, Act_Instruct 5] ?t'
     = Some (set_ipc 5 (I_Return True) (set_obj 0 (ex_pool False 1 [task_a, task_b]) ?t'))"
    using J [THEN conjunct2, THEN conjunct1] unfolding p'eq q .
  have C: "enqueued 0 ([Act_Call 5 task_b] @ [Act_Instruct 5, Act_Instruct 5, Act_Instruct 5,
         Act_Instruct 5, Act_Instruct 5]) ?t = [] @ [task_b]"
    using J [THEN conjunct2, THEN conjunct2] unfolding e .
  show ?thesis
    using A B C by (intro conjI)
qed

theorem exit_flag_first_witness:
  "Worker 0 (ex_sys (ex_pool True 1 [task_a]) W_IsExit)
     = Some (set_pc 0 (W_Return 0) (ex_sys (ex_pool True 1 [task_a]) W_IsExit))
   \<and> heap (set_pc 0 (W_Return 0) (ex_sys (ex_pool True 1 [task_a]) W_IsExit)) 0
       = Some (ex_pool True 1 [task_a])
   \<and> Worker 0 (set_pc 0 (W_Return 0) (ex_sys (ex_pool True 1 [task_a]) W_IsExit)) = None"
proof -
  let ?s = "ex_sys (ex_pool True 1 [task_a]) W_IsExit"
  have 1: "threads ?s 0 = Some \<lparr>arg = Some 0, pc = W_IsExit\<rparr>"
    by simp
  have 2: "heap ?s 0 = Some (ex_pool True 1 [task_a])"
    by simp
  have 3: "is_exit (ex_pool True 1 [task_a])"
    by simp
  have 4: "run [] (set_pc 0 (W_Return 0) ?s) = Some (set_pc 0 (W_Return 0) ?s)"
    by simp
  note e = exit_flag_first [OF 1 _ 2 3, simplified]
  from e have "\<forall>as s'. run as (set_pc 0 (W_Return 0) ?s) = Some s' \<longrightarrow>
      pc_of s' 0 = Some (W_Return 0) \<and> Worker 0 s' = None"
    by simp
  with 4 have 5: "Worker 0 (set_pc 0 (W_Return 0) ?s) = None"
    by blast
  show ?thesis
    using e 2 5 by simp
qed

theorem completion_signal_once_witness:
  "run_threads [0, 0] (ex_sys (ex_pool False 0 []) (W_Call task_c))
     = set_pc 0 W_While
         ((log_line WARN msg_task_error (ex_sys (ex_pool False 0 []) (W_Call task_c)))
            \<lparr>sems := (\<lambda>m. 0)(0 := Suc 0)\<rparr>)"
proof -
  let ?s = "ex_sys (ex_pool False 0 []) (W_Call task_c)"
  have 1: "threads ?s 0 = Some \<lparr>arg = Some 0, pc = W_Call task_c\<rparr>"
    by simp
  have 2: "pfunc task_c (args task_c) \<noteq> 0" "psem task_c = Some 0"
    by (simp_all add: task_c_def)
  show ?thesis
    using completion_signal_once [OF 1, of task_c] 2 by (simp del: run_threads.simps)
qed

theorem fetch_only_nonempty_witness:
  "run_threads [0, 0, 0, 0, 0] (ex_sys (ex_pool False 0 []) W_IsExit)
     = set_pc 0 W_Wait (log_line DBG msg_empty_queue (ex_sys (ex_pool False 0 []) W_IsExit))
   \<and> heap (run_threads [0, 0] (ex_sys (ex_pool False 0 []) W_IsExit)) 0
       = Some ((ex_pool False 0 [])\<lparr>thread_list_lock := Some (By_Worker 0)\<rparr>)
   \<and> heap (run_threads [0, 0, 0, 0] (ex_sys (ex_pool False 0 []) W_IsExit)) 0
       = Some (ex_pool False 0 [])
   \<and> Worker 0 (ex_sys ((ex_pool False 0 [])\<lparr>thread_list_lock := Some (By_Caller 5)\<rparr>) W_Lock) = None
   \<and> Worker 0 (ex_sys (ex_pool False 0 []) W_Fetch)
     = Some (set_pc 0 (W_Unlock None)
         (log_line DBG msg_empty_queue (ex_sys (ex_pool False 0 []) W_Fetch)))
   \<and> Worker 0 (ex_sys ((ex_pool False 0 [])\<lparr>thread_list_lock := Some (By_Worker 0)\<rparr>) (W_Unlock None))
     = Some (set_pc 0 W_While (set_obj 0 (ex_pool False 0 [])
         (ex_sys ((ex_pool False 0 [])\<lparr>thread_list_lock := Some (By_Worker 0)\<rparr>) (W_Unlock None))))
   \<and> Worker 0 (ex_sys (ex_pool False 0 [task_a, task_b]) W_Fetch)
     = Some (set_pc 0 (W_Unlock (Some task_a))
         (set_obj 0 (ex_pool False 0 [task_b]) (ex_sys (ex_pool False 0 [task_a, task_b]) W_Fetch)))
   \<and> heap (set_pc 0 (W_Unlock (Some task_a))
         (set_obj 0 (ex_pool False 0 [task_b]) (ex_sys (ex_pool False 0 [task_a, task_b]) W_Fetch))) 0
     = Some ((ex_pool False 0 [task_a, task_b])\<lparr>instruction_list := tl [task_a, task_b]\<rparr>)
   \<and> Instruct 5 (set_ipc 5 (I_Lock 0 task_a)
         (ex_sys ((ex_pool False 0 [])\<lparr>thread_list_lock := Some (By_Worker 0)\<rparr>) W_Fetch)) = None
   \<and> length [task_a] \<le> length ([] :: thpoolman_param list) + length [task_a, task_b]"
proof -
  let ?s1 = "ex_sys (ex_pool False 0 []) W_IsExit"
  let ?s2 = "ex_sys (ex_pool False 0 []) W_Fetch"
  let ?s3 = "ex_sys (ex_pool False 0 [task_a, task_b]) W_Fetch"
  let ?s4 = "set_pc 0 (W_Unlock (Some task_a)) (set_obj 0 (ex_pool False 0 [task_b]) ?s3)"
  let ?pl = "(ex_pool False 0 [])\<lparr>thread_list_lock := Some (By_Caller 5)\<rparr>"
  let ?s5 = "ex_sys ?pl W_Lock"
  let ?pw = "(ex_pool False 0 [])\<lparr>thread_list_lock := Some (By_Worker 0)\<rparr>"
  let ?s6 = "ex_sys ?pw (W_Unlock None)"
  have t: "threads (ex_sys p c) 0 = Some \<lparr>arg = Some 0, pc = c\<rparr>" "heap (ex_sys p c) 0 = Some p"
    for p c by simp_all
  have A: "run_threads [0, 0, 0, 0, 0] ?s1 = set_pc 0 W_Wait (log_line DBG msg_empty_queue ?s1)
     \<and> heap (run_threads [0, 0] ?s1) 0 = Some ?pw
     \<and> heap (run_threads [0, 0, 0, 0] ?s1) 0 = Some (ex_pool False 0 [])"
    using fetch_only_nonempty [where s = ?s1 and t = 0 and this = 0
        and w = "\<lparr>arg = Some 0, pc = W_IsExit\<rparr>" and p = "ex_pool False 0 []"] t
    by (simp del: run_threads.simps)
  have L: "Worker 0 ?s5 = None"
    using fetch_only_nonempty [where s = ?s5 and t = 0 and this = 0
        and w = "\<lparr>arg = Some 0, pc = W_Lock\<rparr>" and p = ?pl] t
    by (simp del: run_threads.simps)
  have B: "Worker 0 ?s2 = Some (set_pc 0 (W_Unlock None) (log_line DBG msg_empty_queue ?s2))"
    using fetch_only_nonempty [where s = ?s2 and t = 0 and this = 0
        and w = "\<lparr>arg = Some 0, pc = W_Fetch\<rparr>" and p = "ex_pool False 0 []"] t
    by (simp del: run_threads.simps)
  have pw: "?pw\<lparr>thread_list_lock := None\<rparr> = ex_pool False 0 []"
    by (simp add: ex_pool_def)
  have U: "Worker 0 ?s6 = Some (set_pc 0 W_While (set_obj 0 (ex_pool False 0 []) ?s6))"
    using fetch_only_nonempty [where s = ?s6 and t = 0 and this = 0
        and w = "\<lparr>arg = Some 0, pc = W_Unlock None\<rparr>" and p = ?pw] t pw
    by (simp del: run_threads.simps)
  have C: "Worker 0 ?s3 = Some ?s4"
    using Worker_Fetch [where s = ?s3 and t = 0 and a = 0
        and w = "\<lparr>arg = Some 0, pc = W_Fetch\<rparr>" and p = "ex_pool False 0 [task_a, task_b]"] t
    by (simp add: ex_pool_def)
  have D: "pc_of ?s4 0 = Some (W_Unlock (Some task_a))"
    by (simp add: t)
  have E: "heap ?s4 0 = Some ((ex_pool False 0 [task_a, task_b])\<lparr>instruction_list := tl [task_a, task_b]\<rparr>)"
    using fetch_only_nonempty [where s = ?s3 and t = 0 and this = 0
        and w = "\<lparr>arg = Some 0, pc = W_Fetch\<rparr>" and p = "ex_pool False 0 [task_a, task_b]"]
      t C D
    by (simp del: run_threads.simps)
  let ?s7 = "set_ipc 5 (I_Lock 0 task_a) (ex_sys ?pw W_Fetch)"
  have t7: "threads ?s7 0 = Some \<lparr>arg = Some 0, pc = W_Fetch\<rparr>" "heap ?s7 0 = Some ?pw"
    by simp_all
  have c7: "callers ?s7 5 = Some (I_Lock 0 task_a)"
    by simp
  have b7: "lock_inv ?s7 \<and> worker_in_block 0 \<lparr>arg = Some 0, pc = W_Fetch\<rparr>"
    using lock_inv_ex_held [of "I_Lock 0 task_a" False 0 "[]"]
    by (simp add: worker_in_block_def caller_in_block_def)
  note T7 = fetch_only_nonempty [OF t7(1) _ t7(2), simplified worker.simps, OF refl]
  note M7 = T7 [THEN conjunct2, THEN conjunct2, THEN conjunct2, THEN conjunct2,
      THEN conjunct2, THEN conjunct1, THEN mp, OF b7]
  have G: "Instruct 5 ?s7 = None"
    using M7 [THEN conjunct2, THEN conjunct2, THEN spec, THEN spec, THEN mp, OF c7] .
  let ?s0 = "ex_sys (ex_pool False 0 []) W_Wait"
  obtain s' where s': "run ex_run ?s0 = Some s'"
    using ex_run_Some by blast
  note T0 = fetch_only_nonempty [where s = ?s0 and t = 0 and this = 0
        and w = "\<lparr>arg = Some 0, pc = W_Wait\<rparr>" and p = "ex_pool False 0 []",
        OF t(1) _ t(2), simplified worker.simps, OF refl]
  note P0 = T0 [THEN conjunct2, THEN conjunct2, THEN conjunct2, THEN conjunct2,
      THEN conjunct2, THEN conjunct2, THEN spec, THEN spec, THEN mp, OF s']
  have H: "length [task_a] \<le> length ([] :: thpoolman_param list) + length [task_a, task_b]"
    using P0 unfolding ex_run_deq ex_run_enq by simp
  show ?thesis
    using A L B U C E G H by (simp del: run_threads.simps)
qed

lemma ex_env_simps [simp]:
  "fair ex_env" "fair ex_env_create_fails" "fair ex_env_lock_fails"
  "mutex_init_result ex_env = 0" "mutex_destroy_result ex_env = 0"
  "create_result ex_env i = 0" "join_result ex_env t = 0"
  "mutex_init_result ex_env_create_fails = 0" "join_result ex_env_create_fails t = 0"
  "create_result ex_env_create_fails i = (if i = 1 then 11 else 0)"
  "mutex_init_result ex_env_lock_fails = 12"
  by (simp_all add: fair_def ex_env_def ex_env_create_fails_def ex_env_lock_fails_def)

lemma tracked_ex_sys [simp]: "tracked (ex_sys p c) 0 [0]"
  by (simp add: tracked_def)

lemma well_formed_ex_sys [simp]: "well_formed (ex_sys p c)"
  by (rule well_formedI) (auto simp: ex_sys_def split: if_splits)

lemma well_formed_ex_start [simp]: "well_formed ex_start"
  by (rule well_formedI) (simp_all add: ex_start_def)

lemma ex_idle_simps [simp]:
  "heap ex_idle 0 = Some \<lparr>is_exit = False, thpoolman_sem = 3, is_lock_init = True,
      thread_list_lock = None, thread_list = [], instruction_list = []\<rparr>"
  "next_tid ex_idle = 0"
  by (simp_all add: ex_idle_def)

theorem StopThreads_full_stop_witness:
  "StopThreads ex_env 0 ex_idle = Inr (True, log_line INFO msg_nothing_to_stop ex_idle)
   \<and> post_loop 1 (SetExitFlag True (ex_pool False 0 []))
       = (ex_pool False 0 [])\<lparr>is_exit := True, thpoolman_sem := 1\<rparr>
   \<and> (\<exists>s' s2 p2. StopThreads ex_env 0 (ex_sys (ex_pool False 0 []) W_Wait) = Inr (True, s')
         \<and> heap s2 0 = Some p2 \<and> is_exit p2
         \<and> s' = set_obj 0 (p2\<lparr>thread_list := [], thpoolman_sem := 0\<rparr>) s2
         \<and> returned s' 0)"
proof -
  let ?p = "ex_pool False 0 []"
  let ?s = "ex_sys ?p W_Wait"
  have A: "StopThreads ex_env 0 ex_idle = Inr (True, log_line INFO msg_nothing_to_stop ex_idle)"
    using StopThreads_full_stop [OF ex_idle_simps(1), of ex_env] by simp
  have h: "heap ?s 0 = Some ?p"
    by simp
  have ne: "thread_list ?p \<noteq> []"
    by simp
  note T = StopThreads_full_stop [OF h, of ex_env, THEN conjunct2, THEN mp, OF ne]
  have B: "post_loop 1 (SetExitFlag True ?p) = ?p\<lparr>is_exit := True, thpoolman_sem := 1\<rparr>"
    using T [THEN conjunct1] by simp
  have pre: "fair ex_env \<and> tracked ?s 0 (thread_list ?p) \<and> thread_list_lock ?p = None"
    by simp
  from T [THEN conjunct2, THEN conjunct2, THEN mp, OF pre] obtain s'
    where s': "StopThreads ex_env 0 ?s = Inr (True, s')" by blast
  from T [THEN conjunct2, THEN conjunct1, THEN spec, THEN spec, THEN mp, OF s']
  obtain s2 p2 where 1: "heap s2 0 = Some p2" "is_exit p2"
    "s' = set_obj 0 (p2\<lparr>thread_list := [], thpoolman_sem := 0\<rparr>) s2"
    and 2: "\<forall>t\<in>set (thread_list ?p). threads ?s t \<noteq> None \<and> join_result ex_env t = 0
          \<longrightarrow> returned s' t"
    by (elim exE conjE) (rule that; assumption)
  from 2 have "returned s' 0"
    by simp
  with A B s' 1 show ?thesis by blast
qed

theorem StopThreads_true_witness:
  "\<exists>s'. StopThreads (ex_env\<lparr>join_result := (\<lambda>t. 3)\<rparr>) 0 (ex_sys (ex_pool False 0 []) W_Wait)
          = Inr (True, s')"
proof -
  let ?e = "ex_env\<lparr>join_result := (\<lambda>t. 3)\<rparr>"
  let ?p = "ex_pool False 0 []"
  let ?s = "ex_sys ?p W_Wait"
  have pre: "fair ?e \<and> heap ?s 0 = Some ?p \<and> tracked ?s 0 (thread_list ?p)
      \<and> thread_list_lock ?p = None"
    by (simp add: fair_def ex_env_def)
  from StopThreads_true [of ?e 0 ?s, THEN conjunct2, THEN conjunct2, THEN spec, THEN mp, OF pre]
  show ?thesis .
qed



theorem Initialize_never_false_witness:
  "Initialize ex_env 0 ex_start = Inl (Aborted (CRIT, msg_ctor_count))
   \<and> Initialize ex_env_lock_fails 2 ex_start = Inl (Aborted (CRIT, msg_ctor_lock))
   \<and> Initialize ex_env 2 ex_start = Inr (True, (constructed 2 ex_start)\<lparr>singleton := Some 0\<rparr>)
   \<and> Initialize ex_env_create_fails 2 ex_start = Inl (Aborted (ERR, msg_ctor_start))
   \<and> (\<exists>l. Initialize ex_env 0 (ex_sys (ex_pool False 0 []) W_Wait) = Inl (Aborted l))"
proof -
  have s: "singleton ex_start = None" "next_addr ex_start = 0"
    by (simp_all add: ex_start_def)
  have d: "(if singleton ex_start \<noteq> None then Destroy e (log_line WARN msg_recreate ex_start)
            else Inr ex_start) = Inr ex_start" for e
    using s(1) by simp
  have a: "all_created ex_env 2" "\<not> all_created ex_env_create_fails 2"
    by (auto simp: all_created_def)
  have c: "(0::int) < 1" "(1::int) \<le> 2" by simp_all
  have J: "(count < 1 \<longrightarrow> Initialize e count ex_start = Inl (Aborted (CRIT, msg_ctor_count)))
         \<and> (1 \<le> count \<and> mutex_init_result e \<noteq> 0 \<longrightarrow>
              Initialize e count ex_start = Inl (Aborted (CRIT, msg_ctor_lock)))
         \<and> (1 \<le> count \<and> mutex_init_result e = 0 \<and> all_created e count \<longrightarrow>
              Initialize e count ex_start =
                Inr (True, (constructed count ex_start)\<lparr>singleton := Some (next_addr ex_start)\<rparr>))
         \<and> (1 \<le> count \<and> mutex_init_result e = 0 \<and> \<not> all_created e count \<longrightarrow>
              (Initialize e count ex_start = Inl Blocked
               \<or> Initialize e count ex_start = Inl (Aborted (ERR, msg_ctor_start)))
              \<and> (fair e \<longrightarrow> Initialize e count ex_start = Inl (Aborted (ERR, msg_ctor_start))))"
    for e count
    using Initialize_never_false [where e = e and count = count and s = ex_start,
        THEN conjunct2, THEN conjunct2, THEN conjunct1, THEN spec, THEN mp, OF d] .
  have A: "Initialize ex_env 0 ex_start = Inl (Aborted (CRIT, msg_ctor_count))"
    using J [of 0 ex_env, THEN conjunct1, THEN mp, OF c(1)] .
  have B: "Initialize ex_env_lock_fails 2 ex_start = Inl (Aborted (CRIT, msg_ctor_lock))"
    using J [of 2 ex_env_lock_fails, THEN conjunct2, THEN conjunct1] by simp
  have C: "Initialize ex_env 2 ex_start = Inr (True, (constructed 2 ex_start)\<lparr>singleton := Some 0\<rparr>)"
    using J [of 2 ex_env, THEN conjunct2, THEN conjunct2, THEN conjunct1] a(1) s(2) by simp
  have D: "Initialize ex_env_create_fails 2 ex_start = Inl (Aborted (ERR, msg_ctor_start))"
    using J [of 2 ex_env_create_fails, THEN conjunct2, THEN conjunct2, THEN conjunct2] a(2)
    by (simp del: ex_env_simps(10))
  let ?s = "ex_sys (ex_pool False 0 []) W_Wait"
  have pre: "singleton ?s = None
      \<or> (\<exists>a p. singleton ?s = Some a \<and> heap ?s a = Some p \<and> fair ex_env
            \<and> tracked ?s a (thread_list p) \<and> thread_list_lock p = None)"
    by (intro disjI2 exI [of _ 0] exI [of _ "ex_pool False 0 []"]) simp
  have E: "\<exists>l. Initialize ex_env 0 ?s = Inl (Aborted l)"
    using Initialize_never_false [of ex_env 0 ?s, THEN conjunct2, THEN conjunct2,
        THEN conjunct2, THEN mp, OF c(1), THEN conjunct2, THEN mp, OF pre] .
  from A B C D E show ?thesis by (intro conjI)
qed


theorem Instruct_enqueues_witness:
  "run [Act_Instruct 5] (set_ipc 5 (I_Entry task_a) ex_start)
     = Some (set_ipc 5 (I_Return False)
         (log_line WARN msg_not_initialized (set_ipc 5 (I_Entry task_a) ex_start)))
   \<and> run [Act_Instruct 5, Act_Instruct 5, Act_Instruct 5, Act_Instruct 5, Act_Instruct 5]
       (set_ipc 5 (I_Entry task_a) (ex_sys (ex_pool False 0 [task_b]) W_Wait))
     = Some (set_ipc 5 (I_Return True)
         (set_obj 0 (ex_pool False (Suc 0) [task_b, task_a])
           (set_ipc 5 (I_Entry task_a) (ex_sys (ex_pool False 0 [task_b]) W_Wait))))
   \<and> run [Act_Instruct 5, Act_Instruct 5]
       (set_ipc 5 (I_Entry task_a)
         (ex_sys ((ex_pool False 0 [])\<lparr>thread_list_lock := Some (By_Worker 0)\<rparr>) W_Fetch))
     = None
   \<and> (\<exists>n s2 p2. n \<le> 2 \<and> run (replicate n (Act_Worker 0))
         (set_ipc 5 (I_Entry task_a)
           (ex_sys ((ex_pool False 0 [])\<lparr>thread_list_lock := Some (By_Worker 0)\<rparr>) W_Fetch))
         = Some s2 \<and> heap s2 0 = Some p2 \<and> thread_list_lock p2 = None)
   \<and> (\<exists>s'. Destroy ex_env (set_ipc 5 (I_Entry task_a) (ex_sys (ex_pool False 0 [task_b]) W_Wait))
           = Inr s'
         \<and> Instruct 5 s' = Some (set_ipc 5 (I_Return False) (log_line WARN msg_not_initialized s')))"
proof -
  let ?a = "set_ipc 5 (I_Entry task_a) ex_start"
  let ?p = "ex_pool False 0 [task_b]"
  let ?b = "set_ipc 5 (I_Entry task_a) (ex_sys ?p W_Wait)"
  let ?pw = "(ex_pool False 0 [])\<lparr>thread_list_lock := Some (By_Worker 0)\<rparr>"
  let ?c = "set_ipc 5 (I_Entry task_a) (ex_sys ?pw W_Fetch)"
  have ca: "callers ?a 5 = Some (I_Entry task_a)" and cb: "callers ?b 5 = Some (I_Entry task_a)"
    and cc: "callers ?c 5 = Some (I_Entry task_a)"
    by simp_all
  have na: "singleton ?a = None"
    by (simp add: ex_start_def)
  have A: "run [Act_Instruct 5] ?a
      = Some (set_ipc 5 (I_Return False) (log_line WARN msg_not_initialized ?a))"
    using Instruct_enqueues [OF ca, of 0, THEN conjunct2, THEN conjunct1, THEN mp, OF na,
        THEN conjunct1] .
  have pb: "singleton ?b = Some 0 \<and> heap ?b 0 = Some ?p \<and> thread_list_lock ?p = None"
    by simp
  have q: "?p\<lparr>instruction_list := instruction_list ?p @ [task_a],
              thpoolman_sem := Suc (thpoolman_sem ?p)\<rparr> = ex_pool False (Suc 0) [task_b, task_a]"
    by (simp add: ex_pool_def)
  have B: "run [Act_Instruct 5, Act_Instruct 5, Act_Instruct 5, Act_Instruct 5, Act_Instruct 5] ?b
      = Some (set_ipc 5 (I_Return True) (set_obj 0 (ex_pool False (Suc 0) [task_b, task_a]) ?b))"
    using Instruct_enqueues [OF cb, of 0, THEN conjunct2, THEN conjunct2, THEN conjunct1,
        THEN spec, THEN mp, OF pb, THEN conjunct2, THEN conjunct1]
    unfolding q .
  have pc: "singleton ?c = Some 0 \<and> heap ?c 0 = Some ?pw
      \<and> thread_list_lock ?pw = Some (By_Worker 0) \<and> lock_inv ?c"
    using lock_inv_ex_held [of "I_Entry task_a" False 0 "[]"]
    by (simp add: caller_in_block_def)
  note C0 = Instruct_enqueues [OF cc, of 0, THEN conjunct2, THEN conjunct2, THEN conjunct2,
        THEN conjunct1, THEN spec, THEN spec, THEN mp, OF pc]
  have C: "run [Act_Instruct 5, Act_Instruct 5] ?c = None"
    using C0 [THEN conjunct1] .
  have D: "\<exists>n s2 p2. n \<le> 2 \<and> run (replicate n (Act_Worker 0)) ?c = Some s2
      \<and> heap s2 0 = Some p2 \<and> thread_list_lock p2 = None"
    using C0 [THEN conjunct2] by auto
  have h: "singleton ?b = Some 0" "heap ?b 0 = Some ?p"
    by simp_all
  have tr: "tracked ?b 0 (thread_list ?p)"
    by (simp add: tracked_def)
  have lk: "thread_list_lock ?p = None"
    by simp
  from StopThreads_returns [OF ex_env_simps(1) h(2) tr lk] obtain s1
    where s1: "StopThreads ex_env 0 ?b = Inr (True, s1)" by blast
  let ?s' = "s1\<lparr>heap := (heap s1)(0 := None), singleton := None\<rparr>"
  have De: "Destroy ex_env ?b = Inr ?s'"
    using Destroy_Some [OF h, of ex_env] s1 by simp
  have ce: "callers ?s' 5 = Some (I_Entry task_a)"
    using Destroy_callers [OF De] by simp
  have E: "Instruct 5 ?s' = Some (set_ipc 5 (I_Return False) (log_line WARN msg_not_initialized ?s'))"
    using Instruct_enqueues [OF ce, of 0, THEN conjunct2, THEN conjunct2, THEN conjunct2,
        THEN conjunct2, THEN spec, THEN spec, THEN mp, OF De] .
  from De E have F: "\<exists>s'. Destroy ex_env ?b = Inr s'
         \<and> Instruct 5 s' = Some (set_ipc 5 (I_Return False) (log_line WARN msg_not_initialized s'))"
    by blast
  from A B C D F show ?thesis by (intro conjI)
qed

end
